theory Spec2Isabelle
  imports Complex_Main
begin

section \<open>The Relax dataflow pattern matcher\<close>

text \<open>
  A shallow embedding of \<^verbatim>\<open>src/relax/ir/dataflow_matcher.cc\<close>: the recursive
  matcher \<^verbatim>\<open>DFPatternMatcher\<close> with its memo table, its stack of matched nodes
  used as a rollback watermark, and the optional jump from a bound variable to its value.
  Object identity (\<^verbatim>\<open>same_as\<close>, the keys of \<^verbatim>\<open>memo_\<close>) is modelled by a
  natural number carried by every expression and every pattern node.
\<close>

subsection \<open>IR data model\<close>

datatype error =
    AutojumpWithoutVar2Val
  | MemoSizeNotOne
  | NullArray
  | IndexError
  | NullShape
  | NoCheckedType
  | UnsupportedTVMDataType
  | UnsupportedTypeCode
  | StructuralEqualNotRegistered
  | NoVisitor
  | OutOfRange
  | OutOfFuel

datatype prim_expr =
    IntImm int
  | PrimVar string
  | PrimAdd prim_expr prim_expr
  | PrimMul prim_expr prim_expr

datatype double = Finite real | PosInf | NegInf | NaN

datatype object_ref =
    IntImmObj int
  | FloatImmObj double
  | StringImmObj string
  | StringObj string
  | OtherObj nat

datatype tvm_ret_value =
    RetInt int
  | RetFloat double
  | RetStr string
  | RetDataType string
  | RetObject object_ref
  | RetOtherCode nat

datatype ty =
    DynTensorType int string
  | TensorType "prim_expr list" string
  | ShapeType
  | ObjectType
  | TupleType "ty list"
  | FuncType "ty list" ty

datatype shape_obj = ShapeExprObj "prim_expr list" | RuntimeDepShapeObj | OtherShapeObj

datatype expr =
  Expr (eid: nat) (shape: "shape_obj option") (checked_type: "ty option") (node: enode)
and enode =
    ConstantNode
  | VarNode string
  | DataflowVarNode string
  | GlobalVarNode string
  | ExternFuncNode string
  | TupleNode "expr list"
  | TupleGetItemNode expr int
  | CallNode expr "expr list" "(string \<times> tvm_ret_value) list option"
  | FunctionNode "expr list" expr "(string \<times> object_ref) list option"
  | IfNode expr expr expr
  | ShapeExprNode "prim_expr list"
  | OpNode string
  | RuntimeDepShapeNode

datatype dfpattern =
    OrPattern nat dfpattern dfpattern
  | AndPattern nat dfpattern dfpattern
  | NotPattern nat dfpattern
  | AttrPattern nat dfpattern "(string \<times> object_ref) list"
  | CallPattern nat dfpattern "dfpattern list option"
  | ExprPattern nat expr
  | FunctionPattern nat "dfpattern list option" dfpattern
  | TupleGetItemPattern nat dfpattern int
  | TuplePattern nat "dfpattern list option"
  | TypePattern nat dfpattern ty
  | ShapePattern nat dfpattern "prim_expr list"
  | PrimArrPattern nat "prim_expr list"
  | DataTypePattern nat dfpattern string
  | VarPattern nat string
  | ExternFuncPattern nat string
  | ConstantPattern nat
  | DataflowVarPattern nat string
  | GlobalVarPattern nat string
  | WildcardPattern nat
  | RuntimeDepShapePattern nat
  | IfPattern nat dfpattern dfpattern dfpattern
  | DominatorPattern nat dfpattern dfpattern dfpattern

fun psize :: "dfpattern \<Rightarrow> nat" where
  "psize (OrPattern i l r) = Suc (psize l + psize r)"
| "psize (AndPattern i l r) = Suc (psize l + psize r)"
| "psize (NotPattern i p) = Suc (psize p)"
| "psize (AttrPattern i p a) = Suc (psize p)"
| "psize (CallPattern i f args) = Suc (psize f + (case args of None \<Rightarrow> 0 | Some ps \<Rightarrow> sum_list (map psize ps)))"
| "psize (ExprPattern i e) = 1"
| "psize (FunctionPattern i params body) = Suc (psize body + (case params of None \<Rightarrow> 0 | Some ps \<Rightarrow> sum_list (map psize ps)))"
| "psize (TupleGetItemPattern i p k) = Suc (psize p)"
| "psize (TuplePattern i fs) = Suc (case fs of None \<Rightarrow> 0 | Some ps \<Rightarrow> sum_list (map psize ps))"
| "psize (TypePattern i p t) = Suc (psize p)"
| "psize (ShapePattern i p d) = Suc (psize p)"
| "psize (PrimArrPattern i d) = 1"
| "psize (DataTypePattern i p d) = Suc (psize p)"
| "psize (VarPattern i n) = 1"
| "psize (ExternFuncPattern i n) = 1"
| "psize (ConstantPattern i) = 1"
| "psize (DataflowVarPattern i n) = 1"
| "psize (GlobalVarPattern i n) = 1"
| "psize (WildcardPattern i) = 1"
| "psize (RuntimeDepShapePattern i) = 1"
| "psize (IfPattern i c t f) = Suc (psize c + psize t + psize f)"
| "psize (DominatorPattern i parent path child) = Suc (psize parent + psize path + psize child)"

record oracles =
  structural_equal :: "expr \<Rightarrow> expr \<Rightarrow> bool"
  structural_equal_registered :: bool
  structural_equal_obj :: "object_ref \<Rightarrow> object_ref \<Rightarrow> bool"
  simplify_is_one :: "prim_expr \<Rightarrow> prim_expr \<Rightarrow> bool"
  op_attr_map :: "string \<Rightarrow> (string \<rightharpoonup> tvm_ret_value) option"
  infer_type :: "expr \<Rightarrow> error + ty"

record matcher = oracles +
  var2val :: "(nat \<rightharpoonup> expr) option"
  autojump :: bool

record matcher_state =
  memo :: "nat \<rightharpoonup> expr list"
  matched_nodes :: "nat list"
  memoize :: bool
  next_object :: nat

fun pid :: "dfpattern \<Rightarrow> nat" where
  "pid (OrPattern i l r) = i"
| "pid (AndPattern i l r) = i"
| "pid (NotPattern i p) = i"
| "pid (AttrPattern i p a) = i"
| "pid (CallPattern i f args) = i"
| "pid (ExprPattern i e) = i"
| "pid (FunctionPattern i params body) = i"
| "pid (TupleGetItemPattern i p k) = i"
| "pid (TuplePattern i fs) = i"
| "pid (TypePattern i p t) = i"
| "pid (ShapePattern i p d) = i"
| "pid (PrimArrPattern i d) = i"
| "pid (DataTypePattern i p d) = i"
| "pid (VarPattern i n) = i"
| "pid (ExternFuncPattern i n) = i"
| "pid (ConstantPattern i) = i"
| "pid (DataflowVarPattern i n) = i"
| "pid (GlobalVarPattern i n) = i"
| "pid (WildcardPattern i) = i"
| "pid (RuntimeDepShapePattern i) = i"
| "pid (IfPattern i c t f) = i"
| "pid (DominatorPattern i parent path child) = i"

definition same_as :: "expr \<Rightarrow> expr \<Rightarrow> bool" where
  "same_as a b = (eid a = eid b)"

definition is_VarNode :: "expr \<Rightarrow> bool" where
  "is_VarNode e = (case node e of VarNode n \<Rightarrow> True | DataflowVarNode n \<Rightarrow> True | _ \<Rightarrow> False)"

definition TryGetValOfVar :: "expr \<Rightarrow> (nat \<rightharpoonup> expr) option \<Rightarrow> bool \<Rightarrow> error + expr" where
  "TryGetValOfVar expr v2v aj =
     (if \<not> aj then Inr expr
      else if is_VarNode expr then
        (case v2v of
           None \<Rightarrow> Inl AutojumpWithoutVar2Val
         | Some m \<Rightarrow> (case m (eid expr) of Some v \<Rightarrow> Inr v | None \<Rightarrow> Inr expr))
      else Inr expr)"

fun erase_all :: "nat list \<Rightarrow> (nat \<rightharpoonup> expr list) \<Rightarrow> (nat \<rightharpoonup> expr list)" where
  "erase_all [] m = m"
| "erase_all (k # ks) m = erase_all ks (m(k := None))"

definition ClearMap :: "nat \<Rightarrow> matcher_state \<Rightarrow> matcher_state" where
  "ClearMap watermark s =
     s\<lparr>memo := erase_all (drop watermark (matched_nodes s)) (memo s),
       matched_nodes := take watermark (matched_nodes s)\<rparr>"

definition memo_push :: "nat \<Rightarrow> expr \<Rightarrow> matcher_state \<Rightarrow> matcher_state" where
  "memo_push p expr s =
     s\<lparr>memo := (memo s)(p \<mapsto> (case memo s p of None \<Rightarrow> [] | Some es \<Rightarrow> es) @ [expr]),
       matched_nodes := matched_nodes s @ [p]\<rparr>"

definition double_eq :: "double \<Rightarrow> double \<Rightarrow> bool" where
  "double_eq a b = (a \<noteq> NaN \<and> b \<noteq> NaN \<and> a = b)"

definition MatchRetValue :: "('a oracles_scheme) \<Rightarrow> object_ref \<Rightarrow> tvm_ret_value \<Rightarrow> error + bool" where
  "MatchRetValue env lhs rhs =
     (case rhs of
        RetInt r \<Rightarrow> (case lhs of IntImmObj v \<Rightarrow> Inr (v = r) | _ \<Rightarrow> Inr False)
      | RetFloat r \<Rightarrow> (case lhs of FloatImmObj v \<Rightarrow> Inr (double_eq v r) | _ \<Rightarrow> Inr False)
      | RetStr r \<Rightarrow>
          (case lhs of StringImmObj v \<Rightarrow> Inr (v = r) | StringObj v \<Rightarrow> Inr (v = r) | _ \<Rightarrow> Inr False)
      | RetDataType r \<Rightarrow>
          (case lhs of StringImmObj v \<Rightarrow> Inr (r = v) | StringObj v \<Rightarrow> Inr (r = v)
           | _ \<Rightarrow> Inl UnsupportedTVMDataType)
      | RetObject obj \<Rightarrow>
          (case obj of
             StringObj r \<Rightarrow>
               (case lhs of StringImmObj v \<Rightarrow> Inr (r = v) | StringObj v \<Rightarrow> Inr (r = v)
                | _ \<Rightarrow> Inr False)
           | _ \<Rightarrow>
               if \<not> structural_equal_registered env then Inl StructuralEqualNotRegistered
               else Inr (structural_equal_obj env lhs obj))
      | RetOtherCode c \<Rightarrow> Inl UnsupportedTypeCode)"

text \<open>Attribute loop over an operator expression: every entry is inspected (no early exit).\<close>

fun attrs_op_loop :: "('a oracles_scheme) \<Rightarrow> string \<Rightarrow> (string \<times> object_ref) list \<Rightarrow> bool \<Rightarrow> error + bool" where
  "attrs_op_loop env opname [] matches = Inr matches"
| "attrs_op_loop env opname ((attr_name, attr_value) # kvs) matches =
     (case op_attr_map env attr_name of
        Some op_map \<Rightarrow>
          (case op_map opname of
             Some v \<Rightarrow>
               (case MatchRetValue env attr_value v of
                  Inl err \<Rightarrow> Inl err
                | Inr b \<Rightarrow> attrs_op_loop env opname kvs (matches \<and> b))
           | None \<Rightarrow> attrs_op_loop env opname kvs False)
      | None \<Rightarrow> attrs_op_loop env opname kvs False)"

fun attrs_call_loop :: "('a oracles_scheme) \<Rightarrow> (string \<times> tvm_ret_value) list option \<Rightarrow> (string \<times> object_ref) list \<Rightarrow> bool \<Rightarrow> error + bool" where
  "attrs_call_loop env attrs_node [] matches = Inr matches"
| "attrs_call_loop env attrs_node ((attr, v) # kvs) matches =
     (let attr_names = (case attrs_node of None \<Rightarrow> [] | Some kv \<Rightarrow> map fst kv) in
      if matches \<and> attr \<in> set attr_names then
        (case MatchRetValue env v (the (map_of (the attrs_node) attr)) of
           Inl err \<Rightarrow> Inl err
         | Inr b \<Rightarrow> attrs_call_loop env attrs_node kvs (matches \<and> b))
      else Inr False)"

fun attrs_function_loop :: "('a oracles_scheme) \<Rightarrow> (string \<times> object_ref) list option \<Rightarrow> (string \<times> object_ref) list \<Rightarrow> bool \<Rightarrow> bool" where
  "attrs_function_loop env fattrs [] matches = matches"
| "attrs_function_loop env fattrs ((k, v) # kvs) matches =
     (if matches \<and> fattrs \<noteq> None \<and> map_of (the fattrs) k \<noteq> None then
        attrs_function_loop env fattrs kvs (matches \<and> structural_equal_obj env v (the (map_of (the fattrs) k)))
      else False)"

definition match_attributes :: "('a oracles_scheme) \<Rightarrow> (string \<times> object_ref) list \<Rightarrow> expr \<Rightarrow> error + bool" where
  "match_attributes env attributes expr =
     (case node expr of
        OpNode name \<Rightarrow> attrs_op_loop env name attributes True
      | CallNode f args attrs \<Rightarrow> attrs_call_loop env attrs attributes True
      | FunctionNode params body attrs \<Rightarrow> Inr (attrs_function_loop env attrs attributes True)
      | _ \<Rightarrow> Inr False)"

definition reverse :: "dfpattern list \<Rightarrow> dfpattern list" where
  "reverse args = foldl (\<lambda>new_args p. p # new_args) [] args"

definition get_op_node :: "dfpattern \<Rightarrow> string option" where
  "get_op_node p =
     (case p of
        CallPattern i f args \<Rightarrow>
          (case f of
             ExprPattern j e \<Rightarrow> (case node e of OpNode name \<Rightarrow> Some name | _ \<Rightarrow> None)
           | _ \<Rightarrow> None)
      | _ \<Rightarrow> None)"

definition is_pattern_op :: "dfpattern \<Rightarrow> string \<Rightarrow> bool" where
  "is_pattern_op p op_type = (case get_op_node p of Some name \<Rightarrow> name = op_type | None \<Rightarrow> False)"

definition is_expr_op :: "expr \<Rightarrow> string \<Rightarrow> bool" where
  "is_expr_op expr op_type =
     (case node expr of
        CallNode f args attrs \<Rightarrow> (case node f of OpNode name \<Rightarrow> name = op_type | _ \<Rightarrow> False)
      | _ \<Rightarrow> False)"

definition array_index :: "'a list option \<Rightarrow> nat \<Rightarrow> error + 'a" where
  "array_index arr i =
     (case arr of
        None \<Rightarrow> Inl NullArray
      | Some xs \<Rightarrow> if i < length xs then Inr (xs ! i) else Inl IndexError)"

function shape_equal_loop :: "('a oracles_scheme) \<Rightarrow> prim_expr list \<Rightarrow> prim_expr list \<Rightarrow> nat \<Rightarrow> bool" where
  "shape_equal_loop env lhs rhs i =
     (if i < length lhs then
        (if \<not> simplify_is_one env (lhs ! i) (rhs ! i) then False
         else shape_equal_loop env lhs rhs (Suc i))
      else True)"
  by pat_completeness auto
termination
  by (relation "measure (\<lambda>(env, lhs, rhs, i). length lhs - i)") auto

definition shape_equal :: "('a oracles_scheme) \<Rightarrow> prim_expr list \<Rightarrow> prim_expr list \<Rightarrow> bool" where
  "shape_equal env lhs rhs =
     (if length lhs \<noteq> length rhs then False else shape_equal_loop env lhs rhs 0)"

definition expr_args_have_op :: "expr list \<Rightarrow> string \<Rightarrow> error + bool" where
  "expr_args_have_op cargs op_type =
     (case array_index (Some cargs) 0 of
        Inl err \<Rightarrow> Inl err
      | Inr a0 \<Rightarrow>
          if is_expr_op a0 op_type then Inr True
          else (case array_index (Some cargs) 1 of
                  Inl err \<Rightarrow> Inl err
                | Inr a1 \<Rightarrow> Inr (is_expr_op a1 op_type)))"

definition assoc_divide_applies ::
  "dfpattern \<Rightarrow> dfpattern list option \<Rightarrow> expr \<Rightarrow> expr list \<Rightarrow> error + (dfpattern \<times> dfpattern list option) option" where
  "assoc_divide_applies pattern args expr cargs =
     (if is_pattern_op pattern ''divide'' then
        (case array_index args 0 of
           Inl err \<Rightarrow> Inl err
         | Inr a0 \<Rightarrow>
             (case a0 of
                CallPattern j g gargs \<Rightarrow>
                  if is_pattern_op a0 ''multiply'' \<and> is_expr_op expr ''multiply'' then
                    (case expr_args_have_op cargs ''divide'' of
                       Inl err \<Rightarrow> Inl err
                     | Inr b \<Rightarrow> Inr (if b then Some (g, gargs) else None))
                  else Inr None
              | _ \<Rightarrow> Inr None))
      else Inr None)"

definition mk_assoc_divide ::
  "dfpattern \<Rightarrow> dfpattern list option \<Rightarrow> dfpattern \<Rightarrow> dfpattern list option \<Rightarrow> nat \<Rightarrow> nat \<Rightarrow> error + dfpattern" where
  "mk_assoc_divide f args g gargs arg_id n =
     (case array_index gargs arg_id of
        Inl err \<Rightarrow> Inl err
      | Inr x \<Rightarrow>
          (case array_index args 1 of
             Inl err \<Rightarrow> Inl err
           | Inr c \<Rightarrow>
               (let div_pat = CallPattern n f (Some [x, c]) in
                case array_index gargs ((arg_id + 1) mod 2) of
                  Inl err \<Rightarrow> Inl err
                | Inr y \<Rightarrow> Inr (CallPattern (n + 1) g (Some [y, div_pat])))))"

definition assoc_multiply_candidate ::
  "dfpattern list option \<Rightarrow> expr \<Rightarrow> expr list \<Rightarrow> nat \<Rightarrow> error + (dfpattern \<times> dfpattern list option) option" where
  "assoc_multiply_candidate args expr cargs arg_id =
     (case array_index args arg_id of
        Inl err \<Rightarrow> Inl err
      | Inr a \<Rightarrow>
          (case a of
             CallPattern j g gargs \<Rightarrow>
               if is_pattern_op a ''divide'' \<and> is_expr_op expr ''divide'' then
                 (case expr_args_have_op cargs ''multiply'' of
                    Inl err \<Rightarrow> Inl err
                  | Inr b \<Rightarrow> Inr (if b then Some (g, gargs) else None))
               else Inr None
           | _ \<Rightarrow> Inr None))"

definition mk_assoc_multiply ::
  "dfpattern \<Rightarrow> dfpattern list option \<Rightarrow> dfpattern \<Rightarrow> dfpattern list option \<Rightarrow> nat \<Rightarrow> nat \<Rightarrow> error + dfpattern" where
  "mk_assoc_multiply f args g gargs arg_id n =
     (case array_index gargs 0 of
        Inl err \<Rightarrow> Inl err
      | Inr a \<Rightarrow>
          (case array_index args ((arg_id + 1) mod 2) of
             Inl err \<Rightarrow> Inl err
           | Inr c \<Rightarrow>
               (let mul_pat = CallPattern n f (Some [a, c]) in
                case array_index gargs 1 of
                  Inl err \<Rightarrow> Inl err
                | Inr b \<Rightarrow> Inr (CallPattern (n + 1) g (Some [mul_pat, b])))))"

definition find_assoc_multiply ::
  "dfpattern \<Rightarrow> dfpattern \<Rightarrow> dfpattern list option \<Rightarrow> expr \<Rightarrow> expr list \<Rightarrow> nat \<Rightarrow> error + dfpattern option" where
  "find_assoc_multiply pattern f args expr cargs n =
     (if is_pattern_op pattern ''multiply'' then
        (case assoc_multiply_candidate args expr cargs 0 of
           Inl err \<Rightarrow> Inl err
         | Inr (Some (g, gargs)) \<Rightarrow> map_sum id Some (mk_assoc_multiply f args g gargs 0 n)
         | Inr None \<Rightarrow>
             (case assoc_multiply_candidate args expr cargs 1 of
                Inl err \<Rightarrow> Inl err
              | Inr (Some (g, gargs)) \<Rightarrow> map_sum id Some (mk_assoc_multiply f args g gargs 1 n)
              | Inr None \<Rightarrow> Inr None))
      else Inr None)"

definition shape_accessor :: "expr \<Rightarrow> prim_expr list option" where
  "shape_accessor e = (case shape e of Some (ShapeExprObj vs) \<Rightarrow> Some vs | _ \<Rightarrow> None)"

definition VisitDFPattern_VarPattern :: "string \<Rightarrow> expr \<Rightarrow> bool" where
  "VisitDFPattern_VarPattern name_hint expr =
     (case node expr of
        VarNode n \<Rightarrow> name_hint = '''' \<or> name_hint = n
      | DataflowVarNode n \<Rightarrow> name_hint = '''' \<or> name_hint = n
      | _ \<Rightarrow> False)"

definition VisitDFPattern_DataflowVarPattern :: "string \<Rightarrow> expr \<Rightarrow> bool" where
  "VisitDFPattern_DataflowVarPattern name_hint expr =
     ((case node expr of DataflowVarNode n \<Rightarrow> True | _ \<Rightarrow> False)
      \<and> VisitDFPattern_VarPattern name_hint expr)"

definition VisitDFPattern_GlobalVarPattern :: "string \<Rightarrow> expr \<Rightarrow> bool" where
  "VisitDFPattern_GlobalVarPattern name_hint expr =
     (case node expr of GlobalVarNode n \<Rightarrow> name_hint = '''' \<or> name_hint = n | _ \<Rightarrow> False)"

definition VisitDFPattern_ExternFuncPattern :: "string \<Rightarrow> expr \<Rightarrow> bool" where
  "VisitDFPattern_ExternFuncPattern global_symbol expr =
     (case node expr of ExternFuncNode g \<Rightarrow> global_symbol = '''' \<or> global_symbol = g | _ \<Rightarrow> False)"

definition VisitDFPattern_ConstantPattern :: "expr \<Rightarrow> bool" where
  "VisitDFPattern_ConstantPattern expr = (case node expr of ConstantNode \<Rightarrow> True | _ \<Rightarrow> False)"

definition VisitDFPattern_RuntimeDepShapePattern :: "expr \<Rightarrow> error + bool" where
  "VisitDFPattern_RuntimeDepShapePattern expr =
     (case shape expr of
        None \<Rightarrow> Inl NullShape
      | Some sh \<Rightarrow> Inr (sh = RuntimeDepShapeObj))"

definition VisitDFPattern_PrimArrPattern :: "('a oracles_scheme) \<Rightarrow> prim_expr list \<Rightarrow> expr \<Rightarrow> bool" where
  "VisitDFPattern_PrimArrPattern env array expr =
     (case node expr of ShapeExprNode vs \<Rightarrow> shape_equal env array vs | _ \<Rightarrow> False)"

definition jump :: "matcher \<Rightarrow> expr \<Rightarrow> expr" where
  "jump M e = (case TryGetValOfVar e (var2val M) (autojump M) of Inr e' \<Rightarrow> e' | Inl err \<Rightarrow> e)"

definition rank :: "dfpattern \<Rightarrow> expr \<Rightarrow> nat" where
  "rank p e =
     (if (is_pattern_op p ''divide'' \<and> is_expr_op e ''multiply'')
         \<or> (is_pattern_op p ''multiply'' \<and> is_expr_op e ''divide'') then 1 else 0)"

function
  VisitDFPattern :: "matcher \<Rightarrow> dfpattern \<Rightarrow> expr \<Rightarrow> matcher_state \<Rightarrow> error + bool \<times> matcher_state"
and DFPatternFunctor_VisitDFPattern :: "matcher \<Rightarrow> dfpattern \<Rightarrow> expr \<Rightarrow> matcher_state \<Rightarrow> error + bool \<times> matcher_state"
and match_args :: "matcher \<Rightarrow> nat \<Rightarrow> dfpattern list option \<Rightarrow> expr list \<Rightarrow> matcher_state \<Rightarrow> error + bool \<times> matcher_state"
and visit_args_loop :: "matcher \<Rightarrow> dfpattern list \<Rightarrow> expr list \<Rightarrow> matcher_state \<Rightarrow> error + bool \<times> matcher_state"
where
  "VisitDFPattern M pattern expr0 s =
     (case TryGetValOfVar expr0 (var2val M) (autojump M) of
        Inl err \<Rightarrow> Inl err
      | Inr expr \<Rightarrow>
          if memoize s \<and> memo s (pid pattern) \<noteq> None then
            (if length (the (memo s (pid pattern))) \<noteq> 1 then Inl MemoSizeNotOne
             else Inr (same_as expr (the (memo s (pid pattern)) ! 0), s))
          else
            (case DFPatternFunctor_VisitDFPattern M pattern expr s of
               Inl err \<Rightarrow> Inl err
             | Inr (out, s1) \<Rightarrow>
                 if out then Inr (out, memo_push (pid pattern) expr s1)
                 else Inr (out, ClearMap (length (matched_nodes s)) s1)))"
| "DFPatternFunctor_VisitDFPattern M pattern expr0 s =
     (case pattern of
        OrPattern i left right \<Rightarrow>
          (case TryGetValOfVar expr0 (var2val M) (autojump M) of
             Inl err \<Rightarrow> Inl err
           | Inr expr \<Rightarrow>
               (case VisitDFPattern M left expr s of
                  Inl err \<Rightarrow> Inl err
                | Inr (b, s1) \<Rightarrow> if b then Inr (True, s1) else VisitDFPattern M right expr s1))
      | AndPattern i left right \<Rightarrow>
          (case TryGetValOfVar expr0 (var2val M) (autojump M) of
             Inl err \<Rightarrow> Inl err
           | Inr expr \<Rightarrow>
               (case VisitDFPattern M left expr s of
                  Inl err \<Rightarrow> Inl err
                | Inr (b, s1) \<Rightarrow> if b then VisitDFPattern M right expr s1 else Inr (False, s1)))
      | NotPattern i reject \<Rightarrow>
          (case TryGetValOfVar expr0 (var2val M) (autojump M) of
             Inl err \<Rightarrow> Inl err
           | Inr expr \<Rightarrow>
               (case VisitDFPattern M reject expr s of
                  Inl err \<Rightarrow> Inl err
                | Inr (b, s1) \<Rightarrow> Inr (\<not> b, s1)))
      | AttrPattern i inner attributes \<Rightarrow>
          (case TryGetValOfVar expr0 (var2val M) (autojump M) of
             Inl err \<Rightarrow> Inl err
           | Inr expr \<Rightarrow>
               (case VisitDFPattern M inner expr s of
                  Inl err \<Rightarrow> Inl err
                | Inr (matches, s1) \<Rightarrow>
                    if \<not> matches then Inr (matches, s1)
                    else (case match_attributes M attributes expr of
                            Inl err \<Rightarrow> Inl err
                          | Inr b \<Rightarrow> Inr (b, s1))))
      | CallPattern i f args \<Rightarrow>
          (case TryGetValOfVar expr0 (var2val M) (autojump M) of
             Inl err \<Rightarrow> Inl err
           | Inr expr \<Rightarrow>
               (let watermark = length (matched_nodes s) in
                case node expr of
                  CallNode cop cargs cattrs \<Rightarrow>
                    (case VisitDFPattern M f cop s of
                       Inl err \<Rightarrow> Inl err
                     | Inr (matches_op, s1) \<Rightarrow>
                         if matches_op then
                           (let watermark2 = length (matched_nodes s1) in
                            case match_args M watermark2 args cargs s1 of
                              Inl err \<Rightarrow> Inl err
                            | Inr (m1, s2) \<Rightarrow>
                                if m1 then Inr (True, s2)
                                else
                                  (case get_op_node pattern of
                                     Some name \<Rightarrow>
                                       if name = ''add'' \<or> name = ''multiply'' then
                                         (case args of
                                            None \<Rightarrow> Inl NullArray
                                          | Some ps \<Rightarrow>
                                              (case match_args M watermark2 (Some (reverse ps)) cargs s2 of
                                                 Inl err \<Rightarrow> Inl err
                                               | Inr (m2, s3) \<Rightarrow> Inr (m2, s3)))
                                       else Inr (False, s2)
                                   | None \<Rightarrow> Inr (False, s2)))
                         else
                           (let s2 = ClearMap watermark s1 in
                            case assoc_divide_applies pattern args expr cargs of
                              Inl err \<Rightarrow> Inl err
                            | Inr (Some (g, gargs)) \<Rightarrow>
                                (case mk_assoc_divide f args g gargs 0 (next_object s2) of
                                   Inl err \<Rightarrow> Inl err
                                 | Inr mul0 \<Rightarrow>
                                     (case VisitDFPattern M mul0 expr (s2\<lparr>next_object := next_object s2 + 2\<rparr>) of
                                        Inl err \<Rightarrow> Inl err
                                      | Inr (out0, s3) \<Rightarrow>
                                          if out0 then Inr (True, s3)
                                          else
                                            (let s4 = ClearMap watermark s3 in
                                             case mk_assoc_divide f args g gargs 1 (next_object s4) of
                                               Inl err \<Rightarrow> Inl err
                                             | Inr mul1 \<Rightarrow>
                                                 (case VisitDFPattern M mul1 expr (s4\<lparr>next_object := next_object s4 + 2\<rparr>) of
                                                    Inl err \<Rightarrow> Inl err
                                                  | Inr (out1, s5) \<Rightarrow>
                                                      if out1 then Inr (True, s5)
                                                      else Inr (False, ClearMap watermark s5)))))
                            | Inr None \<Rightarrow>
                                (case find_assoc_multiply pattern f args expr cargs (next_object s2) of
                                   Inl err \<Rightarrow> Inl err
                                 | Inr (Some div_pat) \<Rightarrow>
                                     VisitDFPattern M div_pat expr (s2\<lparr>next_object := next_object s2 + 2\<rparr>)
                                 | Inr None \<Rightarrow> Inr (False, s2))))
                | _ \<Rightarrow> Inr (False, s)))
      | ExprPattern i e \<Rightarrow>
          (case TryGetValOfVar expr0 (var2val M) (autojump M) of
             Inl err \<Rightarrow> Inl err
           | Inr expr \<Rightarrow> Inr (structural_equal M e expr, s))
      | FunctionPattern i params body \<Rightarrow>
          (case TryGetValOfVar expr0 (var2val M) (autojump M) of
             Inl err \<Rightarrow> Inl err
           | Inr expr \<Rightarrow>
               (case node expr of
                  FunctionNode fparams fbody fattrs \<Rightarrow>
                    (case (case params of
                             None \<Rightarrow> Inr (True, s)
                           | Some ps \<Rightarrow>
                               if length ps = length fparams then visit_args_loop M ps fparams s
                               else Inr (False, s)) of
                       Inl err \<Rightarrow> Inl err
                     | Inr (matches, s1) \<Rightarrow>
                         if matches then VisitDFPattern M body fbody s1 else Inr (False, s1))
                | _ \<Rightarrow> Inr (False, s)))
      | TupleGetItemPattern i tuple index \<Rightarrow>
          (case TryGetValOfVar expr0 (var2val M) (autojump M) of
             Inl err \<Rightarrow> Inl err
           | Inr expr \<Rightarrow>
               (case node expr of
                  TupleGetItemNode etuple eindex \<Rightarrow>
                    if index = - 1 \<or> index = eindex then VisitDFPattern M tuple etuple s
                    else Inr (False, s)
                | _ \<Rightarrow> Inr (False, s)))
      | TuplePattern i fs \<Rightarrow>
          (case TryGetValOfVar expr0 (var2val M) (autojump M) of
             Inl err \<Rightarrow> Inl err
           | Inr expr \<Rightarrow>
               (case node expr of
                  TupleNode efields \<Rightarrow>
                    (case fs of
                       None \<Rightarrow> Inr (True, s)
                     | Some ps \<Rightarrow>
                         if length ps = length efields then visit_args_loop M ps efields s
                         else Inr (False, s))
                | _ \<Rightarrow> Inr (False, s)))
      | TypePattern i inner t \<Rightarrow>
          (case TryGetValOfVar expr0 (var2val M) (autojump M) of
             Inl err \<Rightarrow> Inl err
           | Inr expr \<Rightarrow>
               (case checked_type expr of
                  None \<Rightarrow> Inl NoCheckedType
                | Some expr_type \<Rightarrow>
                    if t = expr_type then VisitDFPattern M inner expr s else Inr (False, s)))
      | ShapePattern i inner dims \<Rightarrow>
          (case shape_accessor expr0 of
             Some values \<Rightarrow>
               if shape_equal M dims values then VisitDFPattern M inner expr0 s else Inr (False, s)
           | None \<Rightarrow> Inr (False, s))
      | PrimArrPattern i array \<Rightarrow>
          (case TryGetValOfVar expr0 (var2val M) (autojump M) of
             Inl err \<Rightarrow> Inl err
           | Inr expr \<Rightarrow> Inr (VisitDFPattern_PrimArrPattern M array expr, s))
      | DataTypePattern i inner dtype \<Rightarrow>
          (case checked_type expr0 of
             None \<Rightarrow> Inl NoCheckedType
           | Some expr_type \<Rightarrow>
               (case expr_type of
                  DynTensorType ndim edtype \<Rightarrow>
                    if dtype = edtype then VisitDFPattern M inner expr0 s else Inr (False, s)
                | _ \<Rightarrow> Inr (False, s)))
      | VarPattern i name_hint \<Rightarrow> Inr (VisitDFPattern_VarPattern name_hint expr0, s)
      | ExternFuncPattern i global_symbol \<Rightarrow>
          (case TryGetValOfVar expr0 (var2val M) (autojump M) of
             Inl err \<Rightarrow> Inl err
           | Inr expr \<Rightarrow> Inr (VisitDFPattern_ExternFuncPattern global_symbol expr, s))
      | ConstantPattern i \<Rightarrow> Inr (VisitDFPattern_ConstantPattern expr0, s)
      | DataflowVarPattern i name_hint \<Rightarrow> Inr (VisitDFPattern_DataflowVarPattern name_hint expr0, s)
      | GlobalVarPattern i name_hint \<Rightarrow> Inr (VisitDFPattern_GlobalVarPattern name_hint expr0, s)
      | WildcardPattern i \<Rightarrow> Inr (True, s)
      | RuntimeDepShapePattern i \<Rightarrow>
          (case VisitDFPattern_RuntimeDepShapePattern expr0 of
             Inl err \<Rightarrow> Inl err
           | Inr b \<Rightarrow> Inr (b, s))
      | IfPattern i c t f \<Rightarrow> Inl NoVisitor
      | DominatorPattern i parent path child \<Rightarrow> Inl NoVisitor)"
| "match_args M watermark2 pattern_args expr_args s =
     (case (case pattern_args of
              None \<Rightarrow> Inr (True, s)
            | Some ps \<Rightarrow>
                if length ps = length expr_args then visit_args_loop M ps expr_args s
                else Inr (False, s)) of
        Inl err \<Rightarrow> Inl err
      | Inr (matches, s1) \<Rightarrow>
          if \<not> matches then Inr (matches, ClearMap watermark2 s1) else Inr (matches, s1))"
| "visit_args_loop M [] es s = Inr (True, s)"
| "visit_args_loop M (p # ps) [] s = Inl IndexError"
| "visit_args_loop M (p # ps) (e # es) s =
     (case VisitDFPattern M p e s of
        Inl err \<Rightarrow> Inl err
      | Inr (matches, s1) \<Rightarrow> if matches then visit_args_loop M ps es s1 else Inr (False, s1))"
  by pat_completeness auto

definition DFPatternMatcher_state :: "nat \<Rightarrow> matcher_state" where
  "DFPatternMatcher_state n = \<lparr>memo = Map.empty, matched_nodes = [], memoize = True, next_object = n\<rparr>"

definition Match :: "matcher \<Rightarrow> dfpattern \<Rightarrow> expr \<Rightarrow> bool \<Rightarrow> matcher_state \<Rightarrow> error + bool \<times> matcher_state" where
  "Match M pattern expr aj s =
     VisitDFPattern (M\<lparr>autojump := aj\<rparr>) pattern expr (s\<lparr>memo := Map.empty, matched_nodes := []\<rparr>)"

definition MatchExprPattern ::
  "matcher \<Rightarrow> nat \<Rightarrow> dfpattern \<Rightarrow> expr \<Rightarrow> (nat \<rightharpoonup> expr) option \<Rightarrow> error + bool \<times> matcher_state" where
  "MatchExprPattern M n pattern expr v2v =
     (case v2v of
        Some m \<Rightarrow> Match (M\<lparr>var2val := Some m\<rparr>) pattern expr True (DFPatternMatcher_state n)
      | None \<Rightarrow> Match (M\<lparr>var2val := None\<rparr>) pattern expr False (DFPatternMatcher_state n))"

definition example_matcher :: matcher where
  "example_matcher =
     \<lparr>structural_equal = (\<lambda>a b. node a = node b), structural_equal_registered = True,
      structural_equal_obj = (\<lambda>a b. a = b), simplify_is_one = (\<lambda>a b. a = b),
      op_attr_map = (\<lambda>n. None), infer_type = (\<lambda>e. Inr ObjectType),
      var2val = None, autojump = False\<rparr>"

subsection \<open>The first revision: dominator patterns\<close>

text \<open>
  The first revision of the file has no auto-jump, takes checked types from type inference,
  and has the dominator pattern, whose path exploration switches \<^verbatim>\<open>memoize_\<close> off.
  The indexed graph of the root expression (inputs and dominator children of every node) is
  built outside this file and is a parameter here. The traversal of that graph need not
  terminate on a graph with a cycle, so this revision is modelled with fuel.
\<close>

record matcher1 = oracles +
  inputs :: "nat \<rightharpoonup> expr list"
  dominator_children :: "nat \<rightharpoonup> expr list"

definition VisitDFPattern1_VarPattern :: "string \<Rightarrow> expr \<Rightarrow> bool" where
  "VisitDFPattern1_VarPattern name_hint expr =
     (case node expr of
        VarNode n \<Rightarrow> (if name_hint \<noteq> '''' then name_hint = n else True)
      | DataflowVarNode n \<Rightarrow> (if name_hint \<noteq> '''' then name_hint = n else True)
      | _ \<Rightarrow> False)"

definition is_call_op :: "expr \<Rightarrow> expr \<Rightarrow> bool" where
  "is_call_op expr nd =
     (case node expr of CallNode cop cargs cattrs \<Rightarrow> eid nd = eid cop | _ \<Rightarrow> False)"

function
  VisitDFPattern1 :: "nat \<Rightarrow> matcher1 \<Rightarrow> dfpattern \<Rightarrow> expr \<Rightarrow> matcher_state \<Rightarrow> error + bool \<times> matcher_state"
and DFPatternFunctor_VisitDFPattern1 :: "nat \<Rightarrow> matcher1 \<Rightarrow> dfpattern \<Rightarrow> expr \<Rightarrow> matcher_state \<Rightarrow> error + bool \<times> matcher_state"
and match_args1 :: "nat \<Rightarrow> matcher1 \<Rightarrow> nat \<Rightarrow> dfpattern list option \<Rightarrow> expr list \<Rightarrow> matcher_state \<Rightarrow> error + bool \<times> matcher_state"
and visit_args_loop1 :: "nat \<Rightarrow> matcher1 \<Rightarrow> dfpattern list \<Rightarrow> expr list \<Rightarrow> matcher_state \<Rightarrow> error + bool \<times> matcher_state"
and MatchesPath1 :: "nat \<Rightarrow> matcher1 \<Rightarrow> dfpattern \<Rightarrow> dfpattern \<Rightarrow> expr \<Rightarrow> matcher_state \<Rightarrow> error + bool \<times> matcher_state"
and MatchesPath1_loop :: "nat \<Rightarrow> matcher1 \<Rightarrow> dfpattern \<Rightarrow> dfpattern \<Rightarrow> expr \<Rightarrow> expr list \<Rightarrow> matcher_state \<Rightarrow> error + bool \<times> matcher_state"
and DominatesParent1_loop :: "nat \<Rightarrow> matcher1 \<Rightarrow> dfpattern \<Rightarrow> expr list \<Rightarrow> nat list \<Rightarrow> matcher_state \<Rightarrow> error + bool \<times> matcher_state"
and DominatesParent1_children :: "nat \<Rightarrow> matcher1 \<Rightarrow> dfpattern \<Rightarrow> expr list \<Rightarrow> expr list \<Rightarrow> nat list \<Rightarrow> matcher_state \<Rightarrow> error + bool \<times> matcher_state"
where
  "VisitDFPattern1 fuel M pattern expr s =
     (case fuel of
        0 \<Rightarrow> Inl OutOfFuel
      | Suc n \<Rightarrow>
          if memoize s \<and> memo s (pid pattern) \<noteq> None then
            (if length (the (memo s (pid pattern))) \<noteq> 1 then Inl MemoSizeNotOne
             else Inr (same_as expr (the (memo s (pid pattern)) ! 0), s))
          else
            (case DFPatternFunctor_VisitDFPattern1 n M pattern expr s of
               Inl err \<Rightarrow> Inl err
             | Inr (out, s1) \<Rightarrow>
                 if out then Inr (out, memo_push (pid pattern) expr s1)
                 else Inr (out, ClearMap (length (matched_nodes s)) s1)))"
| "DFPatternFunctor_VisitDFPattern1 fuel M pattern expr s =
     (case fuel of
        0 \<Rightarrow> Inl OutOfFuel
      | Suc n \<Rightarrow>
         (case pattern of
            OrPattern i left right \<Rightarrow>
              (case VisitDFPattern1 n M left expr s of
                 Inl err \<Rightarrow> Inl err
               | Inr (b, s1) \<Rightarrow> if b then Inr (True, s1) else VisitDFPattern1 n M right expr s1)
          | AttrPattern i inner attributes \<Rightarrow>
              (case VisitDFPattern1 n M inner expr s of
                 Inl err \<Rightarrow> Inl err
               | Inr (matches, s1) \<Rightarrow>
                   if \<not> matches then Inr (matches, s1)
                   else (case match_attributes M attributes expr of
                           Inl err \<Rightarrow> Inl err
                         | Inr b \<Rightarrow> Inr (b, s1)))
          | CallPattern i f args \<Rightarrow>
              (let watermark = length (matched_nodes s) in
               case node expr of
                 CallNode cop cargs cattrs \<Rightarrow>
                   (case VisitDFPattern1 n M f cop s of
                      Inl err \<Rightarrow> Inl err
                    | Inr (matches_op, s1) \<Rightarrow>
                        if matches_op then
                          (let watermark2 = length (matched_nodes s1) in
                           case match_args1 n M watermark2 args cargs s1 of
                             Inl err \<Rightarrow> Inl err
                           | Inr (m1, s2) \<Rightarrow>
                               if m1 then Inr (True, s2)
                               else
                                 (case get_op_node pattern of
                                    Some name \<Rightarrow>
                                      if name = ''add'' \<or> name = ''multiply'' then
                                        (case args of
                                           None \<Rightarrow> Inl NullArray
                                         | Some ps \<Rightarrow>
                                             (case match_args1 n M watermark2 (Some (reverse ps)) cargs s2 of
                                                Inl err \<Rightarrow> Inl err
                                              | Inr (m2, s3) \<Rightarrow> Inr (m2, s3)))
                                      else Inr (False, s2)
                                  | None \<Rightarrow> Inr (False, s2)))
                        else
                          (let s2 = ClearMap watermark s1 in
                           case assoc_divide_applies pattern args expr cargs of
                             Inl err \<Rightarrow> Inl err
                           | Inr (Some (g, gargs)) \<Rightarrow>
                               (case mk_assoc_divide f args g gargs 0 (next_object s2) of
                                  Inl err \<Rightarrow> Inl err
                                | Inr mul0 \<Rightarrow>
                                    (case VisitDFPattern1 n M mul0 expr (s2\<lparr>next_object := next_object s2 + 2\<rparr>) of
                                       Inl err \<Rightarrow> Inl err
                                     | Inr (out0, s3) \<Rightarrow>
                                         if out0 then Inr (True, s3)
                                         else
                                           (let s4 = ClearMap watermark s3 in
                                            case mk_assoc_divide f args g gargs 1 (next_object s4) of
                                              Inl err \<Rightarrow> Inl err
                                            | Inr mul1 \<Rightarrow>
                                                (case VisitDFPattern1 n M mul1 expr (s4\<lparr>next_object := next_object s4 + 2\<rparr>) of
                                                   Inl err \<Rightarrow> Inl err
                                                 | Inr (out1, s5) \<Rightarrow>
                                                     if out1 then Inr (True, s5)
                                                     else Inr (False, ClearMap watermark s5)))))
                           | Inr None \<Rightarrow>
                               (case find_assoc_multiply pattern f args expr cargs (next_object s2) of
                                  Inl err \<Rightarrow> Inl err
                                | Inr (Some div_pat) \<Rightarrow>
                                    VisitDFPattern1 n M div_pat expr (s2\<lparr>next_object := next_object s2 + 2\<rparr>)
                                | Inr None \<Rightarrow> Inr (False, s2))))
               | _ \<Rightarrow> Inr (False, s))
          | DominatorPattern i parent path child \<Rightarrow>
              (case VisitDFPattern1 n M child expr s of
                 Inl err \<Rightarrow> Inl err
               | Inr (b, s1) \<Rightarrow>
                   if b then
                     (case MatchesPath1 n M parent path expr s1 of
                        Inl err \<Rightarrow> Inl err
                      | Inr (matches_path, s2) \<Rightarrow>
                          (let s3 = s2\<lparr>memoize := True\<rparr> in
                           if matches_path then DominatesParent1_loop n M parent [expr] [] s3
                           else Inr (False, s3)))
                   else Inr (False, s1))
          | ExprPattern i e \<Rightarrow> Inr (structural_equal M e expr, s)
          | FunctionPattern i params body \<Rightarrow>
              (case node expr of
                 FunctionNode fparams fbody fattrs \<Rightarrow>
                   (case (case params of
                            None \<Rightarrow> Inr (True, s)
                          | Some ps \<Rightarrow>
                              if length ps = length fparams then visit_args_loop1 n M ps fparams s
                              else Inr (False, s)) of
                      Inl err \<Rightarrow> Inl err
                    | Inr (matches, s1) \<Rightarrow>
                        if matches then VisitDFPattern1 n M body fbody s1 else Inr (False, s1))
               | _ \<Rightarrow> Inr (False, s))
          | TupleGetItemPattern i tuple index \<Rightarrow>
              (case node expr of
                 TupleGetItemNode etuple eindex \<Rightarrow>
                   if index = - 1 \<or> index = eindex then VisitDFPattern1 n M tuple etuple s
                   else Inr (False, s)
               | _ \<Rightarrow> Inr (False, s))
          | TuplePattern i fs \<Rightarrow>
              (case node expr of
                 TupleNode efields \<Rightarrow>
                   (case fs of
                      None \<Rightarrow> Inr (True, s)
                    | Some ps \<Rightarrow>
                        if length ps = length efields then visit_args_loop1 n M ps efields s
                        else Inr (False, s))
               | _ \<Rightarrow> Inr (False, s))
          | IfPattern i pcond ptrue pfalse \<Rightarrow>
              (case node expr of
                 IfNode econd etrue efalse \<Rightarrow>
                   (case VisitDFPattern1 n M pcond econd s of
                      Inl err \<Rightarrow> Inl err
                    | Inr (b1, s1) \<Rightarrow>
                        if b1 then
                          (case VisitDFPattern1 n M ptrue etrue s1 of
                             Inl err \<Rightarrow> Inl err
                           | Inr (b2, s2) \<Rightarrow>
                               if b2 then VisitDFPattern1 n M pfalse efalse s2 else Inr (False, s2))
                        else Inr (False, s1))
               | _ \<Rightarrow> Inr (False, s))
          | TypePattern i inner t \<Rightarrow>
              (case infer_type M expr of
                 Inl err \<Rightarrow> Inl err
               | Inr expr_type \<Rightarrow>
                   if t = expr_type then VisitDFPattern1 n M inner expr s else Inr (False, s))
          | ShapePattern i inner dims \<Rightarrow>
              (case infer_type M expr of
                 Inl err \<Rightarrow> Inl err
               | Inr expr_type \<Rightarrow>
                   (case expr_type of
                      TensorType tshape tdtype \<Rightarrow>
                        if dims = tshape then VisitDFPattern1 n M inner expr s else Inr (False, s)
                    | _ \<Rightarrow> Inr (False, s)))
          | DataTypePattern i inner dtype \<Rightarrow>
              (case infer_type M expr of
                 Inl err \<Rightarrow> Inl err
               | Inr expr_type \<Rightarrow>
                   (case expr_type of
                      TensorType tshape tdtype \<Rightarrow>
                        if dtype = tdtype then VisitDFPattern1 n M inner expr s else Inr (False, s)
                    | _ \<Rightarrow> Inr (False, s)))
          | VarPattern i name_hint \<Rightarrow> Inr (VisitDFPattern1_VarPattern name_hint expr, s)
          | ConstantPattern i \<Rightarrow> Inr (VisitDFPattern_ConstantPattern expr, s)
          | WildcardPattern i \<Rightarrow> Inr (True, s)
          | RuntimeDepShapePattern i \<Rightarrow>
              (case VisitDFPattern_RuntimeDepShapePattern expr of
                 Inl err \<Rightarrow> Inl err
               | Inr b \<Rightarrow> Inr (b, s))
          | _ \<Rightarrow> Inl NoVisitor))"
| "match_args1 fuel M watermark2 pattern_args expr_args s =
     (case fuel of
        0 \<Rightarrow> Inl OutOfFuel
      | Suc n \<Rightarrow>
          (case (case pattern_args of
                   None \<Rightarrow> Inr (True, s)
                 | Some ps \<Rightarrow>
                     if length ps = length expr_args then visit_args_loop1 n M ps expr_args s
                     else Inr (False, s)) of
             Inl err \<Rightarrow> Inl err
           | Inr (matches, s1) \<Rightarrow>
               if \<not> matches then Inr (matches, ClearMap watermark2 s1) else Inr (matches, s1)))"
| "visit_args_loop1 fuel M ps es s =
     (case fuel of
        0 \<Rightarrow> Inl OutOfFuel
      | Suc n \<Rightarrow>
          (case ps of
             [] \<Rightarrow> Inr (True, s)
           | p # ps' \<Rightarrow>
               (case es of
                  [] \<Rightarrow> Inl IndexError
                | e # es' \<Rightarrow>
                    (case VisitDFPattern1 n M p e s of
                       Inl err \<Rightarrow> Inl err
                     | Inr (matches, s1) \<Rightarrow>
                         if matches then visit_args_loop1 n M ps' es' s1 else Inr (False, s1)))))"
| "MatchesPath1 fuel M parent path expr s =
     (case fuel of
        0 \<Rightarrow> Inl OutOfFuel
      | Suc n \<Rightarrow>
          (case inputs M (eid expr) of
             None \<Rightarrow> Inl OutOfRange
           | Some ins \<Rightarrow> MatchesPath1_loop n M parent path expr ins s))"
| "MatchesPath1_loop fuel M parent path expr ins s =
     (case fuel of
        0 \<Rightarrow> Inl OutOfFuel
      | Suc n \<Rightarrow>
          (case ins of
             [] \<Rightarrow> Inr (True, s)
           | nd # ins' \<Rightarrow>
               if \<not> is_call_op expr nd then
                 (case VisitDFPattern1 n M parent nd (s\<lparr>memoize := True\<rparr>) of
                    Inl err \<Rightarrow> Inl err
                  | Inr (b, s1) \<Rightarrow>
                      if b then Inr (True, s1)
                      else
                        (case VisitDFPattern1 n M path nd (s1\<lparr>memoize := False\<rparr>) of
                           Inl err \<Rightarrow> Inl err
                         | Inr (bp, s2) \<Rightarrow>
                             if \<not> bp then Inr (False, s2)
                             else
                               (case MatchesPath1 n M parent path nd s2 of
                                  Inl err \<Rightarrow> Inl err
                                | Inr (bm, s3) \<Rightarrow>
                                    if \<not> bm then Inr (False, s3)
                                    else MatchesPath1_loop n M parent path expr ins' s3)))
               else MatchesPath1_loop n M parent path expr ins' s))"
| "DominatesParent1_loop fuel M parent stack visited s =
     (case fuel of
        0 \<Rightarrow> Inl OutOfFuel
      | Suc n \<Rightarrow>
          (case stack of
             [] \<Rightarrow> Inr (False, s)
           | current # stack' \<Rightarrow>
               (case dominator_children M (eid current) of
                  None \<Rightarrow> Inl OutOfRange
                | Some ch \<Rightarrow> DominatesParent1_children n M parent ch stack' visited s)))"
| "DominatesParent1_children fuel M parent ch stack visited s =
     (case fuel of
        0 \<Rightarrow> Inl OutOfFuel
      | Suc n \<Rightarrow>
          (case ch of
             [] \<Rightarrow> DominatesParent1_loop n M parent stack visited s
           | nd # ch' \<Rightarrow>
               if eid nd \<notin> set visited then
                 (case VisitDFPattern1 n M parent nd s of
                    Inl err \<Rightarrow> Inl err
                  | Inr (b, s1) \<Rightarrow>
                      if b then Inr (True, s1)
                      else DominatesParent1_children n M parent ch' (nd # stack) (eid nd # visited) s1)
               else DominatesParent1_children n M parent ch' stack visited s))"
  by pat_completeness auto
termination VisitDFPattern1
  by (relation "measure (\<lambda>x. case x of
        Inl (Inl (Inl (n, r))) \<Rightarrow> n | Inl (Inl (Inr (n, r))) \<Rightarrow> n
      | Inl (Inr (Inl (n, r))) \<Rightarrow> n | Inl (Inr (Inr (n, r))) \<Rightarrow> n
      | Inr (Inl (Inl (n, r))) \<Rightarrow> n | Inr (Inl (Inr (n, r))) \<Rightarrow> n
      | Inr (Inr (Inl (n, r))) \<Rightarrow> n | Inr (Inr (Inr (n, r))) \<Rightarrow> n)") simp_all

declare VisitDFPattern1.simps [simp del] DFPatternFunctor_VisitDFPattern1.simps [simp del]
  match_args1.simps [simp del] visit_args_loop1.simps [simp del] MatchesPath1.simps [simp del]
  MatchesPath1_loop.simps [simp del] DominatesParent1_loop.simps [simp del]
  DominatesParent1_children.simps [simp del]

definition Match1 :: "nat \<Rightarrow> matcher1 \<Rightarrow> dfpattern \<Rightarrow> expr \<Rightarrow> matcher_state \<Rightarrow> error + bool \<times> matcher_state" where
  "Match1 fuel M pattern expr s =
     VisitDFPattern1 fuel M pattern expr (s\<lparr>memo := Map.empty, matched_nodes := []\<rparr>)"

subsection \<open>Example inputs\<close>

definition example_add_call :: expr where
  "example_add_call =
     Expr 12 None None
       (CallNode (Expr 100 None None (OpNode ''add''))
          [Expr 13 None None (VarNode ''a''), Expr 14 None None (VarNode ''b'')] None)"

definition example_bound_var :: expr where
  "example_bound_var = Expr 10 None None (VarNode ''v'')"

definition example_autojump_matcher :: matcher where
  "example_autojump_matcher =
     example_matcher\<lparr>var2val := Some [10 \<mapsto> example_add_call], autojump := True\<rparr>"


definition example_chain_matcher :: matcher where
  "example_chain_matcher =
     example_matcher\<lparr>var2val := Some [10 \<mapsto> Expr 11 None None (VarNode ''u''),
                                        11 \<mapsto> Expr 30 None None ConstantNode],
                     autojump := True\<rparr>"

definition example_add_op :: expr where
  "example_add_op = Expr 100 None None (OpNode ''add'')"

definition example_shared_operand_pattern :: dfpattern where
  "example_shared_operand_pattern =
     CallPattern 3 (ExprPattern 0 example_add_op) (Some [WildcardPattern 1, WildcardPattern 1])"

definition example_commutative_pattern :: dfpattern where
  "example_commutative_pattern =
     CallPattern 3 (ExprPattern 0 example_add_op) (Some [ConstantPattern 1, VarPattern 2 []])"

definition example_add_const_call :: expr where
  "example_add_const_call =
     Expr 12 None None
       (CallNode example_add_op
          [Expr 13 None None (VarNode ''a''), Expr 15 None None ConstantNode] None)"

definition example_commutative_state :: matcher_state where
  "example_commutative_state =
     \<lparr>memo = [0 \<mapsto> [example_add_op], 2 \<mapsto> [Expr 13 None None (VarNode ''a'')],
              1 \<mapsto> [Expr 15 None None ConstantNode], 3 \<mapsto> [example_add_const_call]],
      matched_nodes = [0, 2, 1, 3], memoize = True, next_object = 4\<rparr>"

definition example_var_x :: expr where
  "example_var_x = Expr 4 None None (VarNode ''x'')"

definition example_op :: "nat \<Rightarrow> string \<Rightarrow> expr" where
  "example_op k name = Expr k None None (OpNode name)"

definition example_chain2 :: expr where
  "example_chain2 = Expr 3 None None (CallNode (example_op 103 ''nn.relu'') [example_var_x] None)"

definition example_chain1 :: expr where
  "example_chain1 = Expr 2 None None (CallNode (example_op 102 ''tanh'') [example_chain2] None)"

definition example_chain0 :: expr where
  "example_chain0 = Expr 1 None None (CallNode (example_op 101 ''exp'') [example_chain1] None)"

definition example_graph :: "nat \<rightharpoonup> expr list" where
  "example_graph =
     [1 \<mapsto> [example_op 101 ''exp'', example_chain1],
      2 \<mapsto> [example_op 102 ''tanh'', example_chain2],
      3 \<mapsto> [example_op 103 ''nn.relu'', example_var_x],
      4 \<mapsto> [], 101 \<mapsto> [], 102 \<mapsto> [], 103 \<mapsto> []]"

definition example_matcher1 :: matcher1 where
  "example_matcher1 =
     \<lparr>structural_equal = (\<lambda>a b. node a = node b), structural_equal_registered = True,
      structural_equal_obj = (\<lambda>a b. a = b), simplify_is_one = (\<lambda>a b. a = b),
      op_attr_map = (\<lambda>n. None), infer_type = (\<lambda>e. Inr ObjectType),
      inputs = example_graph, dominator_children = example_graph\<rparr>"

definition example_dominator_pattern :: dfpattern where
  "example_dominator_pattern =
     DominatorPattern 3 (VarPattern 2 []) (WildcardPattern 1) (WildcardPattern 0)"

definition example_dominator_state :: matcher_state where
  "example_dominator_state =
     \<lparr>memo = [0 \<mapsto> [example_chain0], 1 \<mapsto> [example_chain1, example_chain2],
              2 \<mapsto> [example_var_x], 3 \<mapsto> [example_chain0]],
      matched_nodes = [0, 1, 1, 2, 3], memoize = True, next_object = 4\<rparr>"

definition example_dataflow_var :: expr where
  "example_dataflow_var = Expr 16 None None (DataflowVarNode ''d'')"

definition example_plain_var :: expr where
  "example_plain_var = Expr 18 None None (VarNode ''w'')"

definition example_dataflow_value :: expr where
  "example_dataflow_value = Expr 17 None None (DataflowVarNode ''w'')"



definition example_tuple_pattern :: dfpattern where
  "example_tuple_pattern = TuplePattern 4 (Some [example_dominator_pattern, WildcardPattern 1])"

definition example_tuple :: expr where
  "example_tuple = Expr 6 None None (TupleNode [example_chain0, Expr 5 None None (VarNode ''y'')])"

subsection \<open>Termination of the matcher\<close>

lemma reverse_eq_rev: "reverse ps = rev ps"
proof -
  have "foldl (\<lambda>new_args p. p # new_args) acc ps = rev ps @ acc" for acc
    by (induction ps arbitrary: acc) auto
  then show ?thesis by (simp add: reverse_def)
qed

lemma psize_pos: "0 < psize p"
  by (cases p) auto

lemma psize_nth_le: "i < length ps \<Longrightarrow> psize (ps ! i) \<le> sum_list (map psize ps)"
  by (simp add: member_le_sum_list)

lemma psize_two_le:
  "1 < length ps \<Longrightarrow> psize (ps ! 0) + psize (ps ! 1) \<le> sum_list (map psize ps)"
  by (cases ps; cases "tl ps") auto

lemma jump_not_var: "\<not> is_VarNode e \<Longrightarrow> jump M e = e"
  by (simp add: jump_def TryGetValOfVar_def)

lemma jump_Inr: "TryGetValOfVar e (var2val M) (autojump M) = Inr e' \<Longrightarrow> jump M e = e'"
  by (simp add: jump_def)

lemma is_expr_op_not_var: "is_expr_op e n \<Longrightarrow> \<not> is_VarNode e"
  by (auto simp: is_expr_op_def is_VarNode_def split: enode.splits)

lemma assoc_divide_appliesD:
  assumes "assoc_divide_applies pattern args expr cargs = Inr (Some (g, gargs))"
  shows "is_pattern_op pattern ''divide'' \<and> is_expr_op expr ''multiply''
         \<and> (\<exists>j. array_index args 0 = Inr (CallPattern j g gargs)
                \<and> is_pattern_op (CallPattern j g gargs) ''multiply'')"
  using assms
  by (auto simp: assoc_divide_applies_def split: if_splits sum.splits dfpattern.splits)

lemma is_pattern_op_Call_cong:
  "is_pattern_op (CallPattern i f a) n = is_pattern_op (CallPattern j f b) n"
  by (simp add: is_pattern_op_def get_op_node_def)

lemma mk_assoc_divide_size:
  assumes "mk_assoc_divide f args g gargs k n = Inr m" "k < 2"
    and "array_index args 0 = Inr (CallPattern j g gargs)"
  shows "psize m \<le> psize (CallPattern i f args)"
proof -
  have k: "k = 0 \<or> k = 1" using assms(2) by auto
  from assms k obtain ps gs where a: "args = Some ps" "gargs = Some gs" "1 < length ps" "1 < length gs"
    and m: "m = CallPattern (n + 1) g (Some [gs ! ((k + 1) mod 2), CallPattern n f (Some [gs ! k, ps ! 1])])"
    and p0: "ps ! 0 = CallPattern j g gargs"
    by (cases args; cases gargs)
       (auto simp: mk_assoc_divide_def array_index_def Let_def split: if_splits)
  have g: "psize (gs ! ((k + 1) mod 2)) + psize (gs ! k) \<le> sum_list (map psize gs)"
    using psize_two_le[OF a(4)] k by auto
  have "psize (ps ! 0) + psize (ps ! 1) \<le> sum_list (map psize ps)"
    using psize_two_le[OF a(3)] .
  then show ?thesis using g by (simp add: m a p0)
qed

lemma mk_assoc_divide_op:
  assumes "mk_assoc_divide f args g gargs k n = Inr m"
  shows "is_pattern_op m x = is_pattern_op (CallPattern j g gargs) x"
  using assms
  by (auto simp: mk_assoc_divide_def Let_def is_pattern_op_def get_op_node_def split: sum.splits)

lemma assoc_multiply_candidateD:
  assumes "assoc_multiply_candidate args expr cargs k = Inr (Some (g, gargs))"
  shows "is_expr_op expr ''divide''
         \<and> (\<exists>j. array_index args k = Inr (CallPattern j g gargs)
                \<and> is_pattern_op (CallPattern j g gargs) ''divide'')"
  using assms
  by (auto simp: assoc_multiply_candidate_def split: if_splits sum.splits dfpattern.splits)

lemma mk_assoc_multiply_size:
  assumes "mk_assoc_multiply f args g gargs k n = Inr m" "k < 2"
    and "array_index args k = Inr (CallPattern j g gargs)"
  shows "psize m \<le> psize (CallPattern i f args)"
proof -
  have k: "k = 0 \<or> k = 1" using assms(2) by auto
  from assms k obtain ps gs where a: "args = Some ps" "gargs = Some gs" "1 < length ps" "1 < length gs"
    and m: "m = CallPattern (n + 1) g (Some [CallPattern n f (Some [gs ! 0, ps ! ((k + 1) mod 2)]), gs ! 1])"
    and p0: "ps ! k = CallPattern j g gargs"
    by (cases args; cases gargs)
       (auto simp: mk_assoc_multiply_def array_index_def Let_def split: if_splits)
  have g: "psize (gs ! 0) + psize (gs ! 1) \<le> sum_list (map psize gs)"
    using psize_two_le[OF a(4)] by auto
  have "psize (ps ! k) + psize (ps ! ((k + 1) mod 2)) \<le> sum_list (map psize ps)"
    using psize_two_le[OF a(3)] k by auto
  then show ?thesis using g by (simp add: m a p0)
qed

lemma mk_assoc_multiply_op:
  assumes "mk_assoc_multiply f args g gargs k n = Inr m"
  shows "is_pattern_op m x = is_pattern_op (CallPattern j g gargs) x"
  using assms
  by (auto simp: mk_assoc_multiply_def Let_def is_pattern_op_def get_op_node_def split: sum.splits)

lemma find_assoc_multiplyD:
  assumes "find_assoc_multiply pattern f args expr cargs n = Inr (Some d)"
    and "pattern = CallPattern i f args"
  shows "psize d \<le> psize pattern \<and> is_pattern_op pattern ''multiply'' \<and> is_expr_op expr ''divide''
         \<and> is_pattern_op d ''divide''"
proof -
  from assms(1) have pm: "is_pattern_op pattern ''multiply''"
    by (auto simp: find_assoc_multiply_def split: if_splits)
  have "\<exists>k g gargs. k < 2 \<and> assoc_multiply_candidate args expr cargs k = Inr (Some (g, gargs))
          \<and> mk_assoc_multiply f args g gargs k n = Inr d"
  proof (cases "assoc_multiply_candidate args expr cargs 0")
    case (Inl err)
    with assms(1) pm show ?thesis by (simp add: find_assoc_multiply_def)
  next
    case (Inr c0)
    show ?thesis
    proof (cases c0)
      case (Some gg)
      with Inr assms(1) pm have "mk_assoc_multiply f args (fst gg) (snd gg) 0 n = Inr d"
        by (cases "mk_assoc_multiply f args (fst gg) (snd gg) 0 n")
           (auto simp: find_assoc_multiply_def split: prod.splits)
      with Some Inr show ?thesis by (intro exI[of _ 0] exI[of _ "fst gg"] exI[of _ "snd gg"]) simp
    next
      case None
      with Inr assms(1) pm obtain gg where
        c1: "assoc_multiply_candidate args expr cargs 1 = Inr (Some gg)"
        and "map_sum id Some (mk_assoc_multiply f args (fst gg) (snd gg) 1 n) = Inr (Some d)"
        by (auto simp: find_assoc_multiply_def split: sum.splits option.splits)
      then have "mk_assoc_multiply f args (fst gg) (snd gg) 1 n = Inr d"
        by (cases "mk_assoc_multiply f args (fst gg) (snd gg) 1 n") auto
      with c1 show ?thesis by (intro exI[of _ 1] exI[of _ "fst gg"] exI[of _ "snd gg"]) simp
    qed
  qed
  then obtain k g gargs where k: "k < 2"
    and c: "assoc_multiply_candidate args expr cargs k = Inr (Some (g, gargs))"
    and m: "mk_assoc_multiply f args g gargs k n = Inr d"
    by blast
  from assoc_multiply_candidateD[OF c] obtain j where
    e: "is_expr_op expr ''divide''" and ai: "array_index args k = Inr (CallPattern j g gargs)"
    and po: "is_pattern_op (CallPattern j g gargs) ''divide''" by blast
  show ?thesis
    using mk_assoc_multiply_size[OF m k ai, of i] mk_assoc_multiply_op[OF m, of _ j] pm e po assms(2)
    by simp
qed

lemma rank_zero_div_mul:
  "is_expr_op e ''multiply'' \<Longrightarrow> is_pattern_op p ''multiply'' \<Longrightarrow> rank p e = 0"
  "is_expr_op e ''divide'' \<Longrightarrow> is_pattern_op p ''divide'' \<Longrightarrow> rank p e = 0"
  by (auto simp: rank_def is_pattern_op_def is_expr_op_def split: option.splits enode.splits)

lemma rank_one:
  "is_expr_op e ''multiply'' \<Longrightarrow> is_pattern_op p ''divide'' \<Longrightarrow> rank p e = 1"
  "is_expr_op e ''divide'' \<Longrightarrow> is_pattern_op p ''multiply'' \<Longrightarrow> rank p e = 1"
  by (auto simp: rank_def)

lemma node_Call_not_var: "node b = CallNode f a c \<Longrightarrow> \<not> is_VarNode b"
  by (simp add: is_VarNode_def)

lemma assoc_divide_measure:
  assumes ap: "assoc_divide_applies (CallPattern i f args) args b cargs = Inr (Some x2)"
    and x2: "(g, gargs) = x2"
    and mk: "mk_assoc_divide f args g gargs k n = Inr m" and k: "k < 2"
  shows "psize m < Suc (psize f + (case args of None \<Rightarrow> 0 | Some ps \<Rightarrow> sum_list (map psize ps)))
         \<or> psize m = Suc (psize f + (case args of None \<Rightarrow> 0 | Some ps \<Rightarrow> sum_list (map psize ps)))
           \<and> Suc (2 * rank m (jump M (jump M b))) < 2 * rank (CallPattern i f args) b"
proof -
  from assoc_divide_appliesD[OF ap[folded x2]] obtain j where
    pd: "is_pattern_op (CallPattern i f args) ''divide''" and em: "is_expr_op b ''multiply''"
    and ai: "array_index args 0 = Inr (CallPattern j g gargs)"
    and pm: "is_pattern_op (CallPattern j g gargs) ''multiply''" by blast
  have sz: "psize m \<le> psize (CallPattern i f args)"
    by (rule mk_assoc_divide_size[OF mk k ai])
  have jb: "jump M b = b" using em by (simp add: jump_not_var is_expr_op_not_var)
  have "is_pattern_op m ''multiply''" using mk_assoc_divide_op[OF mk, of _ j] pm by simp
  then have r0: "rank m b = 0" using em by (simp add: rank_zero_div_mul)
  have r1: "rank (CallPattern i f args) b = 1" using em pd by (simp add: rank_one)
  show ?thesis using sz r0 r1 jb by auto
qed

lemma assoc_multiply_measure:
  assumes f: "find_assoc_multiply (CallPattern i f args) f args b cargs n = Inr (Some d)"
  shows "psize d < Suc (psize f + (case args of None \<Rightarrow> 0 | Some ps \<Rightarrow> sum_list (map psize ps)))
         \<or> psize d = Suc (psize f + (case args of None \<Rightarrow> 0 | Some ps \<Rightarrow> sum_list (map psize ps)))
           \<and> Suc (2 * rank d (jump M (jump M b))) < 2 * rank (CallPattern i f args) b"
proof -
  from find_assoc_multiplyD[OF f refl] have
    sz: "psize d \<le> psize (CallPattern i f args)"
    and pm: "is_pattern_op (CallPattern i f args) ''multiply''"
    and ed: "is_expr_op b ''divide''" and dd: "is_pattern_op d ''divide''" by auto
  have jb: "jump M b = b" using ed by (simp add: jump_not_var is_expr_op_not_var)
  have r0: "rank d b = 0" using ed dd by (simp add: rank_zero_div_mul)
  have r1: "rank (CallPattern i f args) b = 1" using ed pm by (simp add: rank_one)
  show ?thesis using sz r0 r1 jb by auto
qed

lemma sum_list_psize_rev: "sum_list (map psize (rev ps)) = sum_list (map psize ps)"
  by (simp add: rev_map[symmetric])

termination VisitDFPattern
  apply (relation "inv_image (less_than <*lex*> less_than)
    (\<lambda>x. case x of
       Inl (Inl (M, p, e, s)) \<Rightarrow> (psize p, 2 * rank p (jump M (jump M e)) + 2)
     | Inl (Inr (M, p, e, s)) \<Rightarrow> (psize p, 2 * rank p (jump M e) + 1)
     | Inr (Inl (M, w, ps, es, s)) \<Rightarrow> (Suc (case ps of None \<Rightarrow> 0 | Some l \<Rightarrow> sum_list (map psize l)), 1)
     | Inr (Inr (M, ps, es, s)) \<Rightarrow> (Suc (sum_list (map psize ps)), 0))")
                      apply (intro wf_inv_image wf_lex_prod wf_less_than)
                      apply (simp_all add: psize_pos jump_Inr reverse_eq_rev sum_list_psize_rev)
    apply (rule assoc_multiply_measure; assumption)
   apply (rule assoc_divide_measure[where k = 0]; (assumption | simp))
  apply (rule assoc_divide_measure[where k = 1]; (assumption | simp))
  done

declare VisitDFPattern.simps [simp del] DFPatternFunctor_VisitDFPattern.simps [simp del]
  match_args.simps [simp del]

subsection \<open>Pattern objects and the invariant of the memo table\<close>

text \<open>
  A pattern is an object graph: \<open>wf_pattern\<close> says that no pattern object is its own
  descendant, and the objects the matcher allocates for the associative rewrites get
  identities from \<open>next_object\<close>, above every identity in use.
\<close>

fun children :: "dfpattern \<Rightarrow> dfpattern list" where
  "children (OrPattern i l r) = [l, r]"
| "children (AndPattern i l r) = [l, r]"
| "children (NotPattern i p) = [p]"
| "children (AttrPattern i p a) = [p]"
| "children (CallPattern i f args) = f # (case args of None \<Rightarrow> [] | Some ps \<Rightarrow> ps)"
| "children (ExprPattern i e) = []"
| "children (FunctionPattern i params body) = (case params of None \<Rightarrow> [] | Some ps \<Rightarrow> ps) @ [body]"
| "children (TupleGetItemPattern i p k) = [p]"
| "children (TuplePattern i fs) = (case fs of None \<Rightarrow> [] | Some ps \<Rightarrow> ps)"
| "children (TypePattern i p t) = [p]"
| "children (ShapePattern i p d) = [p]"
| "children (PrimArrPattern i d) = []"
| "children (DataTypePattern i p d) = [p]"
| "children (VarPattern i n) = []"
| "children (ExternFuncPattern i n) = []"
| "children (ConstantPattern i) = []"
| "children (DataflowVarPattern i n) = []"
| "children (GlobalVarPattern i n) = []"
| "children (WildcardPattern i) = []"
| "children (RuntimeDepShapePattern i) = []"
| "children (IfPattern i c t f) = [c, t, f]"
| "children (DominatorPattern i parent path child) = [parent, path, child]"

lemma psize_mem_le: "c \<in> set ps \<Longrightarrow> psize c \<le> sum_list (map psize ps)"
  by (induction ps) auto

lemma psize_children:
  assumes "c \<in> set (children p)"
  shows "psize c < psize p"
proof (cases p)
  case (CallPattern i f args)
  then show ?thesis
    using assms by (cases args) (auto dest: psize_mem_le)
next
  case (FunctionPattern i params body)
  then show ?thesis
    using assms by (cases params) (auto dest: psize_mem_le)
next
  case (TuplePattern i fs)
  then show ?thesis
    using assms by (cases fs) (auto dest: psize_mem_le)
qed (use assms in auto)

function pattern_ids :: "dfpattern \<Rightarrow> nat set" where
  "pattern_ids p = insert (pid p) (\<Union> (set (map pattern_ids (children p))))"
  by pat_completeness auto
termination pattern_ids
  by (relation "measure psize") (auto simp: psize_children)

declare pattern_ids.simps [simp del]

function wf_pattern :: "dfpattern \<Rightarrow> bool" where
  "wf_pattern p \<longleftrightarrow>
     pid p \<notin> \<Union> (set (map pattern_ids (children p))) \<and> list_all wf_pattern (children p)"
  by pat_completeness auto
termination wf_pattern
  by (relation "measure psize") (auto simp: psize_children)

declare wf_pattern.simps [simp del]

definition memo_inv :: "matcher_state \<Rightarrow> bool" where
  "memo_inv s \<longleftrightarrow>
     dom (memo s) = set (matched_nodes s) \<and> distinct (matched_nodes s)
     \<and> (\<forall>k \<in> set (matched_nodes s). k < next_object s \<and> (\<exists>e. memo s k = Some [e]))"

definition extends :: "nat set \<Rightarrow> matcher_state \<Rightarrow> matcher_state \<Rightarrow> bool" where
  "extends A s s' \<longleftrightarrow>
     memo_inv s' \<and> memoize s' = memoize s \<and> next_object s \<le> next_object s'
     \<and> (\<exists>new. matched_nodes s' = matched_nodes s @ new
            \<and> set new \<subseteq> A \<union> {next_object s..<next_object s'}
            \<and> (\<forall>k. k \<notin> set new \<longrightarrow> memo s' k = memo s k))"

definition visitable :: "dfpattern \<Rightarrow> matcher_state \<Rightarrow> bool" where
  "visitable p s \<longleftrightarrow>
     memo_inv s \<and> memoize s \<and> wf_pattern p \<and> pattern_ids p \<subseteq> {..<next_object s}"

lemma pid_in_ids: "pid p \<in> pattern_ids p"
  by (simp add: pattern_ids.simps[of p])

lemma child_ids: "c \<in> set (children p) \<Longrightarrow> pattern_ids c \<subseteq> pattern_ids p"
  by (auto simp: pattern_ids.simps[of p])

lemma child_ids_pid: "c \<in> set (children p) \<Longrightarrow> wf_pattern p \<Longrightarrow> pid p \<notin> pattern_ids c"
  by (auto simp: wf_pattern.simps[of p])

lemma child_wf: "c \<in> set (children p) \<Longrightarrow> wf_pattern p \<Longrightarrow> wf_pattern c"
  by (auto simp: wf_pattern.simps[of p] list_all_iff)

lemma extends_refl: "memo_inv s \<Longrightarrow> extends A s s"
  by (simp add: extends_def)

lemma extends_mono: "extends A s s' \<Longrightarrow> A \<subseteq> B \<Longrightarrow> extends B s s'"
  unfolding extends_def by blast

lemma extends_trans:
  assumes "extends A s s1" and "extends A s1 s2"
  shows "extends A s s2"
proof -
  from assms(1) obtain n1 where 1: "matched_nodes s1 = matched_nodes s @ n1"
    "set n1 \<subseteq> A \<union> {next_object s..<next_object s1}"
    "\<forall>k. k \<notin> set n1 \<longrightarrow> memo s1 k = memo s k"
    and le1: "next_object s \<le> next_object s1" and m1: "memoize s1 = memoize s"
    unfolding extends_def by blast
  from assms(2) obtain n2 where 2: "matched_nodes s2 = matched_nodes s1 @ n2"
    "set n2 \<subseteq> A \<union> {next_object s1..<next_object s2}"
    "\<forall>k. k \<notin> set n2 \<longrightarrow> memo s2 k = memo s1 k"
    and le2: "next_object s1 \<le> next_object s2" and m2: "memoize s2 = memoize s1"
    and inv2: "memo_inv s2"
    unfolding extends_def by blast
  have a: "matched_nodes s2 = matched_nodes s @ (n1 @ n2)" using 1 2 by simp
  have b: "set (n1 @ n2) \<subseteq> A \<union> {next_object s..<next_object s2}"
    using 1(2) 2(2) le1 le2 by (auto simp: subset_iff)
  have c: "\<forall>k. k \<notin> set (n1 @ n2) \<longrightarrow> memo s2 k = memo s k"
    using 1(3) 2(3) by simp
  show ?thesis
    unfolding extends_def using a b c inv2 le1 le2 m1 m2 by (intro conjI exI[of _ "n1 @ n2"]) auto
qed

lemma extends_inv: "extends A s s' \<Longrightarrow> memo_inv s'"
  by (simp add: extends_def)

lemma memo_inv_bump: "memo_inv s \<Longrightarrow> next_object s \<le> n \<Longrightarrow> memo_inv (s\<lparr>next_object := n\<rparr>)"
  by (fastforce simp: memo_inv_def)

lemma extends_bump:
  "memo_inv s \<Longrightarrow> next_object s \<le> n \<Longrightarrow> extends A s (s\<lparr>next_object := n\<rparr>)"
  by (simp add: extends_def memo_inv_bump)

lemma erase_all_eq: "erase_all ks m = (\<lambda>k. if k \<in> set ks then None else m k)"
  by (induction ks arbitrary: m) (auto simp: fun_eq_iff)

lemma ClearMap_extends:
  assumes inv: "memo_inv s" and ext: "extends A s s'"
  shows "ClearMap (length (matched_nodes s)) s' = s\<lparr>next_object := next_object s'\<rparr>"
proof -
  from ext obtain new where n: "matched_nodes s' = matched_nodes s @ new"
    "\<forall>k. k \<notin> set new \<longrightarrow> memo s' k = memo s k"
    and inv': "memo_inv s'" and m: "memoize s' = memoize s"
    unfolding extends_def by blast
  have d: "set new \<inter> set (matched_nodes s) = {}"
    using inv' n(1) by (auto simp: memo_inv_def)
  have "memo s k = None" if "k \<in> set new" for k
    using that d inv by (auto simp: memo_inv_def dom_def set_eq_iff)
  then have "erase_all new (memo s') = memo s"
    using n(2) by (auto simp: erase_all_eq fun_eq_iff)
  then show ?thesis
    using n(1) m by (simp add: ClearMap_def)
qed

lemma ClearMap_extends':
  assumes inv: "memo_inv s" and ext: "extends A s s'"
  shows "extends B s (ClearMap (length (matched_nodes s)) s')"
  using ClearMap_extends[OF assms] extends_bump[OF inv, of "next_object s'"] ext
  by (simp add: extends_def)

lemma extends_push:
  assumes inv: "memo_inv s" and ext: "extends A s s1"
    and fresh: "memo s i = None" "i \<notin> A" "i < next_object s"
  shows "extends (insert i A) s (memo_push i e s1)"
proof -
  from ext obtain new where n: "matched_nodes s1 = matched_nodes s @ new"
    "set new \<subseteq> A \<union> {next_object s..<next_object s1}"
    "\<forall>k. k \<notin> set new \<longrightarrow> memo s1 k = memo s k"
    and inv1: "memo_inv s1" and m: "memoize s1 = memoize s"
    and le: "next_object s \<le> next_object s1"
    unfolding extends_def by blast
  have i_new: "i \<notin> set new" using n(2) fresh by auto
  have i_old: "i \<notin> set (matched_nodes s)" using inv fresh(1) by (auto simp: memo_inv_def)
  have i1: "memo s1 i = None" using n(3) i_new fresh(1) by simp
  have inv2: "memo_inv (memo_push i e s1)"
    using inv1 i1 i_new i_old n(1) fresh(3) le
    by (auto simp: memo_inv_def memo_push_def)
  show ?thesis
    unfolding extends_def
    using inv2 m le n i_new
    by (intro conjI exI[of _ "new @ [i]"]) (auto simp: memo_push_def)
qed

lemma visitable_child:
  "visitable p s \<Longrightarrow> c \<in> set (children p) \<Longrightarrow> extends A s s' \<Longrightarrow> visitable c s'"
  using child_ids[of c p] child_wf[of c p]
  by (auto simp: visitable_def extends_def)

definition descendant_ids :: "dfpattern \<Rightarrow> nat set" where
  "descendant_ids p = \<Union> (set (map pattern_ids (children p)))"

lemma pattern_ids_eq: "pattern_ids p = insert (pid p) (descendant_ids p)"
  by (simp add: pattern_ids.simps[of p] descendant_ids_def)

lemma child_descendant: "c \<in> set (children p) \<Longrightarrow> pattern_ids c \<subseteq> descendant_ids p"
  by (auto simp: descendant_ids_def)

lemma wf_pid_descendant: "wf_pattern p \<Longrightarrow> pid p \<notin> descendant_ids p"
  by (simp add: wf_pattern.simps[of p] descendant_ids_def)

lemma extends_trans_fresh:
  assumes "extends D s s1" and "extends B s1 s2"
    and "B \<subseteq> D \<union> {next_object s..<next_object s2}"
  shows "extends D s s2"
proof -
  from assms(1) obtain n1 where 1: "matched_nodes s1 = matched_nodes s @ n1"
    "set n1 \<subseteq> D \<union> {next_object s..<next_object s1}"
    "\<forall>k. k \<notin> set n1 \<longrightarrow> memo s1 k = memo s k"
    and le1: "next_object s \<le> next_object s1" and m1: "memoize s1 = memoize s"
    unfolding extends_def by blast
  from assms(2) obtain n2 where 2: "matched_nodes s2 = matched_nodes s1 @ n2"
    "set n2 \<subseteq> B \<union> {next_object s1..<next_object s2}"
    "\<forall>k. k \<notin> set n2 \<longrightarrow> memo s2 k = memo s1 k"
    and le2: "next_object s1 \<le> next_object s2" and m2: "memoize s2 = memoize s1"
    and inv2: "memo_inv s2"
    unfolding extends_def by blast
  have a: "matched_nodes s2 = matched_nodes s @ (n1 @ n2)" using 1 2 by simp
  have b: "set (n1 @ n2) \<subseteq> D \<union> {next_object s..<next_object s2}"
    using 1(2) 2(2) le1 le2 assms(3) by (auto simp: subset_iff)
  have c: "\<forall>k. k \<notin> set (n1 @ n2) \<longrightarrow> memo s2 k = memo s k"
    using 1(3) 2(3) by simp
  show ?thesis
    unfolding extends_def using a b c inv2 le1 le2 m1 m2 by (intro conjI exI[of _ "n1 @ n2"]) auto
qed

lemma extends_child:
  assumes "extends D s s1" and "extends (pattern_ids c) s1 s2" and "pattern_ids c \<subseteq> D"
  shows "extends D s s2"
  using extends_trans_fresh[OF assms(1,2)] assms(3) by blast

lemma extends_same_nodes:
  "extends A s s' \<Longrightarrow> matched_nodes s' = matched_nodes s \<Longrightarrow> memo s' = memo s"
  by (auto simp: extends_def fun_eq_iff)

lemma pattern_ids_Call:
  "pattern_ids (CallPattern i f (Some ps)) = insert i (pattern_ids f \<union> \<Union> (pattern_ids ` set ps))"
  by (simp add: pattern_ids.simps[of "CallPattern i f (Some ps)"])

lemma wf_pattern_Call:
  "wf_pattern (CallPattern i f (Some ps)) \<longleftrightarrow>
     i \<notin> pattern_ids f \<union> \<Union> (pattern_ids ` set ps) \<and> wf_pattern f \<and> (\<forall>p \<in> set ps. wf_pattern p)"
  by (simp add: wf_pattern.simps[of "CallPattern i f (Some ps)"] list_all_iff)

lemma descendant_ids_Call:
  "descendant_ids (CallPattern i f (Some ps)) = pattern_ids f \<union> \<Union> (pattern_ids ` set ps)"
  by (simp add: descendant_ids_def)

lemma synthetic_pattern:
  assumes wf: "wf_pattern (CallPattern i f (Some ps))"
    and bound: "pattern_ids (CallPattern i f (Some ps)) \<subseteq> {..<n}"
    and a: "a \<in> set ps" "a = CallPattern j g (Some gs)"
    and x: "x \<in> set gs" and y: "y \<in> set gs" and c: "c \<in> set ps"
  shows "wf_pattern (CallPattern (n + 1) g (Some [y, CallPattern n f (Some [x, c])]))"
    and "wf_pattern (CallPattern (n + 1) g (Some [CallPattern n f (Some [x, c]), y]))"
    and "pattern_ids (CallPattern (n + 1) g (Some [y, CallPattern n f (Some [x, c])]))
           \<subseteq> descendant_ids (CallPattern i f (Some ps)) \<union> {n, n + 1}"
    and "pattern_ids (CallPattern (n + 1) g (Some [CallPattern n f (Some [x, c]), y]))
           \<subseteq> descendant_ids (CallPattern i f (Some ps)) \<union> {n, n + 1}"
proof -
  let ?D = "descendant_ids (CallPattern i f (Some ps))"
  have wa: "wf_pattern a" and wfc: "wf_pattern c" and wff: "wf_pattern f"
    using wf a(1) c by (auto simp: wf_pattern_Call)
  have wg: "wf_pattern g" and wx: "wf_pattern x" and wy: "wf_pattern y"
    using wa x y by (auto simp: a(2) wf_pattern_Call)
  have ia: "pattern_ids a \<subseteq> ?D" and ic: "pattern_ids c \<subseteq> ?D" and "pattern_ids f \<subseteq> ?D"
    using a(1) c by (auto simp: descendant_ids_Call)
  moreover have "pattern_ids g \<subseteq> pattern_ids a" "pattern_ids x \<subseteq> pattern_ids a"
    "pattern_ids y \<subseteq> pattern_ids a"
    using x y by (auto simp: a(2) pattern_ids_Call)
  ultimately have sub: "pattern_ids f \<subseteq> ?D" "pattern_ids g \<subseteq> ?D" "pattern_ids x \<subseteq> ?D"
    "pattern_ids y \<subseteq> ?D" "pattern_ids c \<subseteq> ?D"
    by auto
  have lt: "?D \<subseteq> {..<n}" using bound by (auto simp: pattern_ids_Call descendant_ids_Call)
  have nD: "n \<notin> ?D" "n + 1 \<notin> ?D" using lt by auto
  show "wf_pattern (CallPattern (n + 1) g (Some [y, CallPattern n f (Some [x, c])]))"
    using sub nD wg wx wy wfc wff by (auto simp: wf_pattern_Call pattern_ids_Call)
  show "wf_pattern (CallPattern (n + 1) g (Some [CallPattern n f (Some [x, c]), y]))"
    using sub nD wg wx wy wfc wff by (auto simp: wf_pattern_Call pattern_ids_Call)
  show "pattern_ids (CallPattern (n + 1) g (Some [y, CallPattern n f (Some [x, c])])) \<subseteq> ?D \<union> {n, n + 1}"
    using sub by (auto simp: pattern_ids_Call)
  show "pattern_ids (CallPattern (n + 1) g (Some [CallPattern n f (Some [x, c]), y])) \<subseteq> ?D \<union> {n, n + 1}"
    using sub by (auto simp: pattern_ids_Call)
qed

lemma mk_assoc_divide_synthetic:
  assumes mk: "mk_assoc_divide f args g gargs k n = Inr m"
    and ai: "array_index args 0 = Inr (CallPattern j g gargs)"
    and wf: "wf_pattern (CallPattern i f args)"
    and bound: "pattern_ids (CallPattern i f args) \<subseteq> {..<n}"
  shows "wf_pattern m \<and> pattern_ids m \<subseteq> descendant_ids (CallPattern i f args) \<union> {n, n + 1}"
proof -
  from mk ai obtain ps gs where a: "args = Some ps" "gargs = Some gs"
    and l: "0 < length ps" "1 < length ps" "k < length gs" "(k + 1) mod 2 < length gs"
    and m: "m = CallPattern (n + 1) g (Some [gs ! ((k + 1) mod 2), CallPattern n f (Some [gs ! k, ps ! 1])])"
    and p0: "ps ! 0 = CallPattern j g (Some gs)"
    by (cases args; cases gargs)
       (auto simp: mk_assoc_divide_def array_index_def Let_def split: if_splits)
  show ?thesis
    unfolding m a
    using synthetic_pattern(1,3)[OF wf[unfolded a] bound[unfolded a] nth_mem[OF l(1)] p0
        nth_mem[OF l(3)] nth_mem[OF l(4)] nth_mem[OF l(2)]]
    by simp
qed

lemma mk_assoc_multiply_synthetic:
  assumes mk: "mk_assoc_multiply f args g gargs k n = Inr m"
    and ai: "array_index args k = Inr (CallPattern j g gargs)"
    and wf: "wf_pattern (CallPattern i f args)"
    and bound: "pattern_ids (CallPattern i f args) \<subseteq> {..<n}"
  shows "wf_pattern m \<and> pattern_ids m \<subseteq> descendant_ids (CallPattern i f args) \<union> {n, n + 1}"
proof -
  from mk ai obtain ps gs where a: "args = Some ps" "gargs = Some gs"
    and l: "k < length ps" "(k + 1) mod 2 < length ps" "0 < length gs" "1 < length gs"
    and m: "m = CallPattern (n + 1) g (Some [CallPattern n f (Some [gs ! 0, ps ! ((k + 1) mod 2)]), gs ! 1])"
    and p0: "ps ! k = CallPattern j g (Some gs)"
    by (cases args; cases gargs)
       (auto simp: mk_assoc_multiply_def array_index_def Let_def split: if_splits)
  show ?thesis
    unfolding m a
    using synthetic_pattern(2,4)[OF wf[unfolded a] bound[unfolded a] nth_mem[OF l(1)] p0
        nth_mem[OF l(3)] nth_mem[OF l(4)] nth_mem[OF l(2)]]
    by simp
qed

lemma find_assoc_multiplyE:
  assumes "find_assoc_multiply pattern f args expr cargs n = Inr (Some d)"
  obtains k g gargs j where "k < 2" "array_index args k = Inr (CallPattern j g gargs)"
    "mk_assoc_multiply f args g gargs k n = Inr d"
proof -
  from assms have pm: "is_pattern_op pattern ''multiply''"
    by (auto simp: find_assoc_multiply_def split: if_splits)
  have "\<exists>k g gargs. k < 2 \<and> assoc_multiply_candidate args expr cargs k = Inr (Some (g, gargs))
          \<and> mk_assoc_multiply f args g gargs k n = Inr d"
  proof (cases "assoc_multiply_candidate args expr cargs 0")
    case (Inl err)
    with assms pm show ?thesis by (simp add: find_assoc_multiply_def)
  next
    case (Inr c0)
    show ?thesis
    proof (cases c0)
      case (Some gg)
      with Inr assms pm have "mk_assoc_multiply f args (fst gg) (snd gg) 0 n = Inr d"
        by (cases "mk_assoc_multiply f args (fst gg) (snd gg) 0 n")
           (auto simp: find_assoc_multiply_def split: prod.splits)
      with Some Inr show ?thesis by (intro exI[of _ 0] exI[of _ "fst gg"] exI[of _ "snd gg"]) simp
    next
      case None
      with Inr assms pm obtain gg where
        c1: "assoc_multiply_candidate args expr cargs 1 = Inr (Some gg)"
        and "map_sum id Some (mk_assoc_multiply f args (fst gg) (snd gg) 1 n) = Inr (Some d)"
        by (auto simp: find_assoc_multiply_def split: sum.splits option.splits)
      then have "mk_assoc_multiply f args (fst gg) (snd gg) 1 n = Inr d"
        by (cases "mk_assoc_multiply f args (fst gg) (snd gg) 1 n") auto
      with c1 show ?thesis by (intro exI[of _ 1] exI[of _ "fst gg"] exI[of _ "snd gg"]) simp
    qed
  qed
  then obtain k g gargs where k: "k < 2"
    and c: "assoc_multiply_candidate args expr cargs k = Inr (Some (g, gargs))"
    and m: "mk_assoc_multiply f args g gargs k n = Inr d"
    by blast
  from assoc_multiply_candidateD[OF c] obtain j where
    aj: "array_index args k = Inr (CallPattern j g gargs)" by blast
  show ?thesis by (rule that[OF k aj m])
qed

lemma visit_invariant:
  shows "visitable p e_s \<Longrightarrow> VisitDFPattern M p e e_s = Inr (b, s') \<Longrightarrow>
           extends (pattern_ids p) e_s s' \<and> (\<not> b \<longrightarrow> matched_nodes s' = matched_nodes e_s)"
    and "visitable p2 s2 \<Longrightarrow> DFPatternFunctor_VisitDFPattern M p2 e2 s2 = Inr (b2, s2') \<Longrightarrow>
           extends (descendant_ids p2) s2 s2'"
    and "w = length (matched_nodes s3) \<Longrightarrow> memo_inv s3 \<Longrightarrow> memoize s3 \<Longrightarrow>
         (\<forall>q \<in> set (case args of None \<Rightarrow> [] | Some ps \<Rightarrow> ps). wf_pattern q \<and> pattern_ids q \<subseteq> {..<next_object s3}) \<Longrightarrow>
         match_args M w args es3 s3 = Inr (b3, s3') \<Longrightarrow>
           extends (\<Union> (set (map pattern_ids (case args of None \<Rightarrow> [] | Some ps \<Rightarrow> ps)))) s3 s3'
           \<and> (\<not> b3 \<longrightarrow> matched_nodes s3' = matched_nodes s3)"
    and "memo_inv s4 \<Longrightarrow> memoize s4 \<Longrightarrow>
         (\<forall>q \<in> set ps4. wf_pattern q \<and> pattern_ids q \<subseteq> {..<next_object s4}) \<Longrightarrow>
         visit_args_loop M ps4 es4 s4 = Inr (b4, s4') \<Longrightarrow>
           extends (\<Union> (set (map pattern_ids ps4))) s4 s4'"
proof (induction M p e e_s and M p2 e2 s2 and M w args es3 s3 and M ps4 es4 s4
    arbitrary: b s' and b2 s2' and b3 s3' and b4 s4'
    rule: VisitDFPattern_DFPatternFunctor_VisitDFPattern_match_args_visit_args_loop.induct)
  case (1 M pattern expr0 s)
  from "1.prems"(1) have inv: "memo_inv s" and mz: "memoize s" and wf: "wf_pattern pattern"
    and ids: "pattern_ids pattern \<subseteq> {..<next_object s}"
    by (auto simp: visitable_def)
  from "1.prems"(2) obtain expr where j: "TryGetValOfVar expr0 (var2val M) (autojump M) = Inr expr"
    by (auto simp: VisitDFPattern.simps[of M pattern expr0 s] split: sum.splits)
  show ?case
  proof (cases "memo s (pid pattern) \<noteq> None")
    case True
    with "1.prems"(2) j mz have "s' = s"
      by (auto simp: VisitDFPattern.simps[of M pattern expr0 s] split: if_splits)
    then show ?thesis using inv by (simp add: extends_refl)
  next
    case False
    with "1.prems"(2) j obtain out s1 where
      d: "DFPatternFunctor_VisitDFPattern M pattern expr s = Inr (out, s1)"
      and r: "b = out" "s' = (if out then memo_push (pid pattern) expr s1
                                else ClearMap (length (matched_nodes s)) s1)"
      by (auto simp: VisitDFPattern.simps[of M pattern expr0 s] split: sum.splits if_splits)
    from False have "\<not> (memoize s \<and> memo s (pid pattern) \<noteq> None)" by simp
    from "1.IH"[OF j this "1.prems"(1) d] have e1: "extends (descendant_ids pattern) s s1" .
    show ?thesis
    proof (cases out)
      case True
      have "extends (insert (pid pattern) (descendant_ids pattern)) s (memo_push (pid pattern) expr s1)"
        using False wf ids pid_in_ids[of pattern]
        by (intro extends_push[OF inv e1]) (auto simp: wf_pid_descendant)
      then show ?thesis using True r by (simp add: pattern_ids_eq)
    next
      case False
      then show ?thesis
        using r ClearMap_extends[OF inv e1] extends_bump[OF inv, of "next_object s1"] e1
        by (simp add: extends_def)
    qed
  qed
next
  case (2 M pattern expr0 s)
  let ?D = "descendant_ids pattern"
  note vis = "2.prems"(1)
  note run = "2.prems"(2)
  from vis have inv: "memo_inv s" and mz: "memoize s" by (auto simp: visitable_def)
  have refl: "extends ?D s s" using inv by (rule extends_refl)
  have vc: "visitable c sa" if "c \<in> set (children pattern)" "extends A s sa" for c sa A
    using visitable_child[OF vis that] .
  have step: "extends ?D s sb"
    if "c \<in> set (children pattern)" "extends ?D s sa" "extends (pattern_ids c) sa sb" for c sa sb
    using extends_child[OF that(2,3)] child_descendant[OF that(1)] by simp
  show ?case
  proof (cases pattern)
    case (OrPattern i l r)
    from run OrPattern obtain expr b s1 where j: "TryGetValOfVar expr0 (var2val M) (autojump M) = Inr expr"
      and v1: "VisitDFPattern M l expr s = Inr (b, s1)"
      and r: "if b then s2' = s1 else VisitDFPattern M r expr s1 = Inr (b2, s2')"
      by (auto simp: DFPatternFunctor_VisitDFPattern.simps split: sum.splits if_splits)
    have e1: "extends ?D s s1"
      using "2.IH"(1)[OF OrPattern j vc[OF _ refl] v1] step[OF _ refl, of l] OrPattern by simp
    show ?thesis
    proof (cases b)
      case True
      then show ?thesis using r e1 by simp
    next
      case False
      with r have v2: "VisitDFPattern M r expr s1 = Inr (b2, s2')" by simp
      show ?thesis
        using "2.IH"(2)[OF OrPattern j v1 HOL.refl False vc[OF _ e1] v2] step[OF _ e1, of r] OrPattern
        by simp
    qed
  next
    case (AndPattern i l r)
    from run AndPattern obtain expr b s1 where j: "TryGetValOfVar expr0 (var2val M) (autojump M) = Inr expr"
      and v1: "VisitDFPattern M l expr s = Inr (b, s1)"
      and r: "if b then VisitDFPattern M r expr s1 = Inr (b2, s2') else s2' = s1"
      by (auto simp: DFPatternFunctor_VisitDFPattern.simps split: sum.splits if_splits)
    have e1: "extends ?D s s1"
      using "2.IH"(3)[OF AndPattern j vc[OF _ refl] v1] step[OF _ refl, of l] AndPattern by simp
    show ?thesis
    proof (cases b)
      case False
      then show ?thesis using r e1 by simp
    next
      case True
      with r have v2: "VisitDFPattern M r expr s1 = Inr (b2, s2')" by simp
      show ?thesis
        using "2.IH"(4)[OF AndPattern j v1 HOL.refl True vc[OF _ e1] v2] step[OF _ e1, of r] AndPattern
        by simp
    qed
  next
    case (NotPattern i q)
    from run NotPattern obtain expr b where j: "TryGetValOfVar expr0 (var2val M) (autojump M) = Inr expr"
      and v1: "VisitDFPattern M q expr s = Inr (b, s2')"
      by (auto simp: DFPatternFunctor_VisitDFPattern.simps split: sum.splits if_splits)
    show ?thesis
      using "2.IH"(5)[OF NotPattern j vc[OF _ refl] v1] step[OF _ refl, of q] NotPattern by simp
  next
    case (AttrPattern i q attrs)
    from run AttrPattern obtain expr b where j: "TryGetValOfVar expr0 (var2val M) (autojump M) = Inr expr"
      and v1: "VisitDFPattern M q expr s = Inr (b, s2')"
      by (auto simp: DFPatternFunctor_VisitDFPattern.simps split: sum.splits if_splits)
    show ?thesis
      using "2.IH"(6)[OF AttrPattern j vc[OF _ refl] v1] step[OF _ refl, of q] AttrPattern by simp
  next
    case (CallPattern i f args)
    note wfp = vis[unfolded visitable_def, THEN conjunct2, THEN conjunct2, THEN conjunct1]
    note idp = vis[unfolded visitable_def, THEN conjunct2, THEN conjunct2, THEN conjunct2]
    show ?thesis
    proof (cases "s2' = s")
      case True
      then show ?thesis using refl by simp
    next
      case False
      with run CallPattern obtain expr cop cargs cattrs mo s1 where
        j: "TryGetValOfVar expr0 (var2val M) (autojump M) = Inr expr"
        and n: "node expr = CallNode cop cargs cattrs"
        and v1: "VisitDFPattern M f cop s = Inr (mo, s1)"
        by (auto simp: DFPatternFunctor_VisitDFPattern.simps Let_def
            split: sum.splits if_splits enode.splits)
      have fc: "f \<in> set (children pattern)" using CallPattern by simp
      from "2.IH"(7)[OF CallPattern j HOL.refl n vc[OF fc refl] v1]
      have e1f: "extends (pattern_ids f) s s1" and nm: "\<not> mo \<Longrightarrow> matched_nodes s1 = matched_nodes s"
        by auto
      have e1: "extends ?D s s1" using step[OF fc refl e1f] .
      have inv1: "memo_inv s1" using e1 by (rule extends_inv)
      have mz1: "memoize s1" using e1 mz by (simp add: extends_def)
      show ?thesis
      proof (cases mo)
        case True
        let ?w2 = "length (matched_nodes s1)"
        let ?A = "\<Union> (set (map pattern_ids (case args of None \<Rightarrow> [] | Some ps \<Rightarrow> ps)))"
        have AD: "?A \<subseteq> ?D" using CallPattern by (auto simp: descendant_ids_def split: option.splits)
        from run CallPattern j n v1 True obtain m1 s2 where
          ma: "match_args M ?w2 args cargs s1 = Inr (m1, s2)"
          by (auto simp: DFPatternFunctor_VisitDFPattern.simps Let_def split: sum.splits)
        have q1: "\<forall>q\<in>set (case args of None \<Rightarrow> [] | Some ps \<Rightarrow> ps).
                   wf_pattern q \<and> pattern_ids q \<subseteq> {..<next_object s1}"
          using vc[OF _ e1] CallPattern by (auto simp: visitable_def split: option.splits)
        from "2.IH"(8)[OF CallPattern j HOL.refl n v1 HOL.refl True HOL.refl HOL.refl inv1 mz1 q1 ma]
        have e2a: "extends ?A s1 s2" and nm1: "\<not> m1 \<Longrightarrow> matched_nodes s2 = matched_nodes s1"
          by auto
        have e2: "extends ?D s s2"
          using extends_trans_fresh[OF e1 e2a] AD by blast
        show ?thesis
        proof (cases m1)
          case m1: True
          with run CallPattern j n v1 True ma have "s2' = s2"
            by (simp add: DFPatternFunctor_VisitDFPattern.simps Let_def)
          then show ?thesis using e2 by simp
        next
          case m1: False
          show ?thesis
          proof (cases "\<exists>name. get_op_node pattern = Some name \<and> (name = ''add'' \<or> name = ''multiply'')")
            case no: False
            with run CallPattern j n v1 True ma m1 have "s2' = s2"
              by (auto simp: DFPatternFunctor_VisitDFPattern.simps Let_def split: option.splits if_splits)
            then show ?thesis using e2 by simp
          next
            case yes: True
            then obtain name where g: "get_op_node pattern = Some name"
              and nameq: "name = ''add'' \<or> name = ''multiply''" by blast
            from run CallPattern j n v1 True ma m1 g nameq obtain ps where
              a: "args = Some ps"
              and ma2: "match_args M ?w2 (Some (reverse ps)) cargs s2 = Inr (b2, s2')"
              by (auto simp: DFPatternFunctor_VisitDFPattern.simps Let_def
                  split: option.splits sum.splits if_splits)
            have inv2: "memo_inv s2" using e2 by (rule extends_inv)
            have mz2: "memoize s2" using e2 mz by (simp add: extends_def)
            have w2: "?w2 = length (matched_nodes s2)" using nm1 m1 by simp
            have q2: "\<forall>q\<in>set (case Some (reverse ps) of None \<Rightarrow> [] | Some ps \<Rightarrow> ps).
                   wf_pattern q \<and> pattern_ids q \<subseteq> {..<next_object s2}"
              using vc[OF _ e2] CallPattern a by (auto simp: visitable_def reverse_eq_rev)
            from "2.IH"(9)[OF CallPattern j HOL.refl n v1 HOL.refl True HOL.refl ma HOL.refl m1 g
                nameq a w2 inv2 mz2 q2 ma2]
            have "extends (\<Union> (set (map pattern_ids (reverse ps)))) s2 s2'" by simp
            moreover have "\<Union> (set (map pattern_ids (reverse ps))) \<subseteq> ?D"
              using AD a by (simp add: reverse_eq_rev)
            ultimately show ?thesis
              using extends_trans_fresh[OF e2] by blast
          qed
        qed
      next
        case mo: False
        let ?n = "next_object s1"
        let ?sa = "ClearMap (length (matched_nodes s)) s1"
        have sa: "?sa = s\<lparr>next_object := ?n\<rparr>"
          using ClearMap_extends[OF inv e1] .
        have le1: "next_object s \<le> ?n" using e1 by (simp add: extends_def)
        have esa: "extends ?D s ?sa" unfolding sa using extends_bump[OF inv le1] .
        have bump: "extends ?D s (s\<lparr>next_object := k\<rparr>)" if "next_object s \<le> k" for k
          using extends_bump[OF inv that] .
        have idn: "pattern_ids (CallPattern i f args) \<subseteq> {..<k}" if "next_object s \<le> k" for k
          using idp that CallPattern by auto
        have synth: "extends ?D s sb \<and> (\<not> ob \<longrightarrow> ClearMap (length (matched_nodes s)) sb = s\<lparr>next_object := next_object sb\<rparr>)"
          if le: "next_object s \<le> k"
            and syn: "wf_pattern m \<and> pattern_ids m \<subseteq> descendant_ids (CallPattern i f args) \<union> {k, k + 1}"
            and ih: "visitable m (s\<lparr>next_object := k + 2\<rparr>) \<Longrightarrow>
                  extends (pattern_ids m) (s\<lparr>next_object := k + 2\<rparr>) sb
                  \<and> (\<not> ob \<longrightarrow> matched_nodes sb = matched_nodes (s\<lparr>next_object := k + 2\<rparr>))"
          for k m sb ob
        proof -
          have b2: "extends ?D s (s\<lparr>next_object := k + 2\<rparr>)" using bump[of "k + 2"] le by simp
          have "descendant_ids (CallPattern i f args) \<subseteq> {..<k}"
            using idn[OF le] by (auto simp: pattern_ids_eq)
          then have "pattern_ids m \<subseteq> {..<k + 2}" using syn by fastforce
          then have "visitable m (s\<lparr>next_object := k + 2\<rparr>)"
            using syn b2 mz by (simp add: visitable_def extends_def)
          from ih[OF this] have em: "extends (pattern_ids m) (s\<lparr>next_object := k + 2\<rparr>) sb" by simp
          then have "k + 2 \<le> next_object sb" by (simp add: extends_def)
          then have "pattern_ids m \<subseteq> ?D \<union> {next_object s..<next_object sb}"
            using syn le CallPattern by auto
          then have es: "extends ?D s sb" using extends_trans_fresh[OF b2 em] by simp
          then show ?thesis using ClearMap_extends[OF inv es] by simp
        qed
        show ?thesis
        proof (cases "assoc_divide_applies pattern args expr cargs")
          case (Inl err)
          with run CallPattern j n v1 mo show ?thesis
            by (simp add: DFPatternFunctor_VisitDFPattern.simps Let_def)
        next
          case (Inr ap)
          show ?thesis
          proof (cases ap)
            case None
            show ?thesis
            proof (cases "find_assoc_multiply pattern f args expr cargs ?n")
              case fl: (Inl err)
              with run CallPattern j n v1 mo Inr None show ?thesis
                by (simp add: DFPatternFunctor_VisitDFPattern.simps Let_def sa)
            next
              case fr: (Inr fm)
              show ?thesis
              proof (cases fm)
                case fn: None
                with run CallPattern j n v1 mo Inr None fr have "s2' = ?sa"
                  by (simp add: DFPatternFunctor_VisitDFPattern.simps Let_def sa)
                then show ?thesis using esa by simp
              next
                case fs: (Some dv)
                with run CallPattern j n v1 mo Inr None fr have
                  vd: "VisitDFPattern M dv expr (s\<lparr>next_object := ?n + 2\<rparr>) = Inr (b2, s2')"
                  by (simp add: DFPatternFunctor_VisitDFPattern.simps Let_def sa)
                from fr fs obtain k g gargs jj where k: "k < 2"
                  and ai: "array_index args k = Inr (CallPattern jj g gargs)"
                  and mk: "mk_assoc_multiply f args g gargs k ?n = Inr dv"
                  by (auto elim: find_assoc_multiplyE)
                have syn: "wf_pattern dv \<and> pattern_ids dv \<subseteq> descendant_ids (CallPattern i f args) \<union> {?n, ?n + 1}"
                  using mk_assoc_multiply_synthetic[OF mk ai wfp[unfolded CallPattern] idn[OF le1]] .
                have f': "find_assoc_multiply pattern f args expr cargs (next_object ?sa) = Inr fm"
                  using fr by (simp add: sa)
                have "extends ?D s s2'"
                  using synth[OF le1 syn, of s2' b2]
                    "2.IH"(10)[OF CallPattern j HOL.refl n v1 HOL.refl mo HOL.refl Inr None f' fs,
                      of b2 s2'] vd
                  by (simp add: sa)
                then show ?thesis .
              qed
            qed
          next
            case (Some gg)
            obtain g gargs where gg: "gg = (g, gargs)" by (cases gg)
            from assoc_divide_appliesD[OF Inr[unfolded Some gg]] CallPattern obtain jj where
              ai: "array_index args 0 = Inr (CallPattern jj g gargs)" by blast
            from run CallPattern j n v1 mo Inr Some gg obtain mul0 where
              mk0: "mk_assoc_divide f args g gargs 0 ?n = Inr mul0"
              by (auto simp: DFPatternFunctor_VisitDFPattern.simps Let_def sa split: sum.splits)
            from run CallPattern j n v1 mo Inr Some gg mk0 obtain out0 s3 where
              v0: "VisitDFPattern M mul0 expr (s\<lparr>next_object := ?n + 2\<rparr>) = Inr (out0, s3)"
              by (auto simp: DFPatternFunctor_VisitDFPattern.simps Let_def sa split: sum.splits)
            have syn0: "wf_pattern mul0 \<and> pattern_ids mul0 \<subseteq> descendant_ids (CallPattern i f args) \<union> {?n, ?n + 1}"
              using mk_assoc_divide_synthetic[OF mk0 ai wfp[unfolded CallPattern] idn[OF le1]] .
            have mk0': "mk_assoc_divide f args g gargs 0 (next_object ?sa) = Inr mul0"
              using mk0 by (simp add: sa)
            have r0: "extends ?D s s3"
              "\<not> out0 \<Longrightarrow> ClearMap (length (matched_nodes s)) s3 = s\<lparr>next_object := next_object s3\<rparr>"
              using synth[OF le1 syn0, of s3 out0]
                "2.IH"(11)[OF CallPattern j HOL.refl n v1 HOL.refl mo HOL.refl Inr Some gg[symmetric] mk0',
                  of out0 s3] v0
              by (simp_all add: sa)
            show ?thesis
            proof (cases out0)
              case True
              with run CallPattern j n v1 mo Inr Some gg mk0 v0 have "s2' = s3"
                by (simp add: DFPatternFunctor_VisitDFPattern.simps Let_def sa)
              then show ?thesis using r0(1) by simp
            next
              case o0: False
              let ?n3 = "next_object s3"
              have le3: "next_object s \<le> ?n3" using r0(1) by (simp add: extends_def)
              note c3 = r0(2)[OF o0]
              from run CallPattern j n v1 mo Inr Some gg mk0 v0 o0 obtain mul1 where
                mk1: "mk_assoc_divide f args g gargs 1 ?n3 = Inr mul1"
                by (auto simp: DFPatternFunctor_VisitDFPattern.simps Let_def sa c3 split: sum.splits)
              from run CallPattern j n v1 mo Inr Some gg mk0 v0 o0 mk1 obtain out1 s5 where
                v1': "VisitDFPattern M mul1 expr (s\<lparr>next_object := ?n3 + 2\<rparr>) = Inr (out1, s5)"
                and fin: "b2 = out1" "s2' = (if out1 then s5 else ClearMap (length (matched_nodes s)) s5)"
                by (auto simp: DFPatternFunctor_VisitDFPattern.simps Let_def sa c3 split: sum.splits if_splits)
              have syn1: "wf_pattern mul1 \<and> pattern_ids mul1 \<subseteq> descendant_ids (CallPattern i f args) \<union> {?n3, ?n3 + 1}"
                using mk_assoc_divide_synthetic[OF mk1 ai wfp[unfolded CallPattern] idn[OF le3]] .
              have v0': "VisitDFPattern M mul0 expr (?sa\<lparr>next_object := next_object ?sa + 2\<rparr>) = Inr (out0, s3)"
                using v0 by (simp add: sa)
              have mk1': "mk_assoc_divide f args g gargs 1 (next_object (ClearMap (length (matched_nodes s)) s3)) = Inr mul1"
                using mk1 by (simp add: c3)
              have r1: "extends ?D s s5"
                "\<not> out1 \<Longrightarrow> ClearMap (length (matched_nodes s)) s5 = s\<lparr>next_object := next_object s5\<rparr>"
                using synth[OF le3 syn1, of s5 out1]
                  "2.IH"(12)[OF CallPattern j HOL.refl n v1 HOL.refl mo HOL.refl Inr Some gg[symmetric] mk0'
                    v0' HOL.refl o0 HOL.refl mk1', of out1 s5] v1'
                by (simp_all add: c3)
              show ?thesis
              proof (cases out1)
                case True
                then show ?thesis using fin r1(1) by simp
              next
                case False
                have "next_object s \<le> next_object s5" using r1(1) by (simp add: extends_def)
                then show ?thesis using fin False r1(2) bump by simp
              qed
            qed
          qed
        qed
      qed
    qed
  next
    case (FunctionPattern i params body)
    show ?thesis
    proof (cases "s2' = s")
      case True
      then show ?thesis using refl by simp
    next
      case False
      with run FunctionPattern obtain expr fparams fbody fattrs m s1 where
        j: "TryGetValOfVar expr0 (var2val M) (autojump M) = Inr expr"
        and n: "node expr = FunctionNode fparams fbody fattrs"
        and l: "(case params of None \<Rightarrow> Inr (True, s)
                 | Some ps \<Rightarrow> if length ps = length fparams then visit_args_loop M ps fparams s
                              else Inr (False, s)) = Inr (m, s1)"
        and r: "if m then VisitDFPattern M body fbody s1 = Inr (b2, s2') else s2' = s1"
        by (auto simp: DFPatternFunctor_VisitDFPattern.simps
            split: sum.splits if_splits enode.splits)
      have e1: "extends ?D s s1"
      proof (cases params)
        case None
        with l show ?thesis using refl by simp
      next
        case (Some ps)
        show ?thesis
        proof (cases "length ps = length fparams")
          case True
          with l Some have lp: "visit_args_loop M ps fparams s = Inr (m, s1)" by simp
          have q: "\<forall>q\<in>set ps. wf_pattern q \<and> pattern_ids q \<subseteq> {..<next_object s}"
            using vc[OF _ refl] FunctionPattern Some by (auto simp: visitable_def)
          have "\<Union> (set (map pattern_ids ps)) \<subseteq> ?D"
            using FunctionPattern Some by (auto simp: descendant_ids_def)
          then show ?thesis
            using "2.IH"(13)[OF FunctionPattern j n Some True inv mz q lp] extends_mono by blast
        next
          case False
          with l Some show ?thesis using refl by simp
        qed
      qed
      show ?thesis
      proof (cases m)
        case True
        with r have v2: "VisitDFPattern M body fbody s1 = Inr (b2, s2')" by simp
        show ?thesis
          using "2.IH"(14)[OF FunctionPattern j n l HOL.refl True vc[OF _ e1] v2]
            step[OF _ e1, of body] FunctionPattern by simp
      next
        case False
        then show ?thesis using r e1 by simp
      qed
    qed
  next
    case (TupleGetItemPattern i q index)
    show ?thesis
    proof (cases "s2' = s")
      case True
      then show ?thesis using refl by simp
    next
      case False
      with run TupleGetItemPattern obtain expr etuple eindex b where
        j: "TryGetValOfVar expr0 (var2val M) (autojump M) = Inr expr"
        and n: "node expr = TupleGetItemNode etuple eindex" "index = - 1 \<or> index = eindex"
        and v1: "VisitDFPattern M q etuple s = Inr (b, s2')"
        by (auto simp: DFPatternFunctor_VisitDFPattern.simps
            split: sum.splits if_splits enode.splits)
      show ?thesis
        using "2.IH"(15)[OF TupleGetItemPattern j n vc[OF _ refl] v1] step[OF _ refl, of q]
          TupleGetItemPattern by simp
    qed
  next
    case (TuplePattern i fs)
    show ?thesis
    proof (cases "s2' = s")
      case True
      then show ?thesis using refl by simp
    next
      case False
      with run TuplePattern obtain expr efields ps where
        j: "TryGetValOfVar expr0 (var2val M) (autojump M) = Inr expr"
        and n: "node expr = TupleNode efields" "fs = Some ps" "length ps = length efields"
        and v1: "visit_args_loop M ps efields s = Inr (b2, s2')"
        by (auto simp: DFPatternFunctor_VisitDFPattern.simps
            split: sum.splits if_splits enode.splits option.splits)
      have q: "\<forall>q\<in>set ps. wf_pattern q \<and> pattern_ids q \<subseteq> {..<next_object s}"
        using vc[OF _ refl] TuplePattern n(2) by (auto simp: visitable_def)
      have "descendant_ids pattern = \<Union> (set (map pattern_ids ps))"
        using TuplePattern n(2) by (simp add: descendant_ids_def)
      then show ?thesis
        using "2.IH"(16)[OF TuplePattern j n inv mz q v1] by simp
    qed
  next
    case (TypePattern i q t)
    show ?thesis
    proof (cases "s2' = s")
      case True
      then show ?thesis using refl by simp
    next
      case False
      with run TypePattern obtain expr expr_type where
        j: "TryGetValOfVar expr0 (var2val M) (autojump M) = Inr expr"
        and n: "checked_type expr = Some expr_type" "t = expr_type"
        and v1: "VisitDFPattern M q expr s = Inr (b2, s2')"
        by (auto simp: DFPatternFunctor_VisitDFPattern.simps
            split: sum.splits if_splits option.splits)
      show ?thesis
        using "2.IH"(17)[OF TypePattern j n vc[OF _ refl] v1] step[OF _ refl, of q]
          TypePattern by simp
    qed
  next
    case (ShapePattern i q dims)
    show ?thesis
    proof (cases "s2' = s")
      case True
      then show ?thesis using refl by simp
    next
      case False
      with run ShapePattern obtain actual where
        n: "shape_accessor expr0 = Some actual" "shape_equal M dims actual"
        and v1: "VisitDFPattern M q expr0 s = Inr (b2, s2')"
        by (auto simp: DFPatternFunctor_VisitDFPattern.simps
            split: sum.splits if_splits option.splits)
      show ?thesis
        using "2.IH"(18)[OF ShapePattern n vc[OF _ refl] v1] step[OF _ refl, of q]
          ShapePattern by simp
    qed
  next
    case (DataTypePattern i q dtype)
    show ?thesis
    proof (cases "s2' = s")
      case True
      then show ?thesis using refl by simp
    next
      case False
      with run DataTypePattern obtain expr_type ndim where
        n: "checked_type expr0 = Some expr_type" "expr_type = DynTensorType ndim dtype"
        and v1: "VisitDFPattern M q expr0 s = Inr (b2, s2')"
        by (auto simp: DFPatternFunctor_VisitDFPattern.simps
            split: sum.splits if_splits option.splits ty.splits)
      show ?thesis
        using "2.IH"(19)[OF DataTypePattern n HOL.refl vc[OF _ refl] v1] step[OF _ refl, of q]
          DataTypePattern by simp
    qed
  qed (use run refl in \<open>auto simp: DFPatternFunctor_VisitDFPattern.simps
        split: sum.splits\<close>)
next
  case (3 M watermark2 pattern_args expr_args s)
  let ?A = "\<Union> (set (map pattern_ids (case pattern_args of None \<Rightarrow> [] | Some ps \<Rightarrow> ps)))"
  note inv = "3.prems"(2)
  from "3.prems"(5) obtain m s1 where
    l: "(case pattern_args of None \<Rightarrow> Inr (True, s)
         | Some ps \<Rightarrow> if length ps = length expr_args then visit_args_loop M ps expr_args s
                      else Inr (False, s)) = Inr (m, s1)"
    and r: "b3 = m" "s3' = (if \<not> m then ClearMap watermark2 s1 else s1)"
    by (auto simp: match_args.simps[of M watermark2 pattern_args expr_args s]
        split: sum.splits if_splits)
  have e1: "extends ?A s s1"
  proof (cases pattern_args)
    case None
    with l show ?thesis using inv by (simp add: extends_refl)
  next
    case (Some ps)
    show ?thesis
    proof (cases "length ps = length expr_args")
      case True
      with l Some have "visit_args_loop M ps expr_args s = Inr (m, s1)" by simp
      from "3.IH"[OF Some True inv "3.prems"(3) _ this] "3.prems"(4) Some
      show ?thesis by simp
    next
      case False
      with l Some show ?thesis using inv by (simp add: extends_refl)
    qed
  qed
  show ?case
  proof (cases m)
    case True
    then show ?thesis using r e1 by simp
  next
    case False
    then show ?thesis
      using r ClearMap_extends[OF inv e1] extends_bump[OF inv, of "next_object s1"] e1 "3.prems"(1)
      by (simp add: extends_def)
  qed
next
  case (4 M es s)
  then show ?case by (simp add: extends_refl)
next
  case (5 M p ps s)
  then show ?case by simp
next
  case (6 M p ps e es s)
  have vis: "visitable p s" using "6.prems"(1-3) by (simp add: visitable_def)
  from "6.prems"(4) obtain m s1 where v: "VisitDFPattern M p e s = Inr (m, s1)"
    and r: "if m then visit_args_loop M ps es s1 = Inr (b4, s4') else (b4 = False \<and> s4' = s1)"
    by (auto split: sum.splits if_splits)
  from "6.IH"(1)[OF vis v] have e1: "extends (pattern_ids p) s s1" by simp
  have e1': "extends (\<Union> (set (map pattern_ids (p # ps)))) s s1"
    by (rule extends_mono[OF e1]) auto
  show ?case
  proof (cases m)
    case True
    have q: "\<forall>q\<in>set ps. wf_pattern q \<and> pattern_ids q \<subseteq> {..<next_object s1}"
      using "6.prems"(3) e1 by (fastforce simp: extends_def)
    have "extends (\<Union> (set (map pattern_ids ps))) s1 s4'"
      using "6.IH"(2)[OF v refl True _ _ q] r True e1 "6.prems"(2) by (simp add: extends_def)
    then show ?thesis
      by (intro extends_trans_fresh[OF e1']) auto
  next
    case False
    then show ?thesis using r e1' by simp
  qed
qed

subsection \<open>Every memo key is on the stack of matched nodes\<close>

definition memo_keys_recorded :: "matcher_state \<Rightarrow> bool" where
  "memo_keys_recorded s \<longleftrightarrow> dom (memo s) \<subseteq> set (matched_nodes s)"

lemma recorded_ClearMap: "memo_keys_recorded s \<Longrightarrow> memo_keys_recorded (ClearMap w s)"
proof -
  assume a: "memo_keys_recorded s"
  have "set (matched_nodes s) = set (take w (matched_nodes s)) \<union> set (drop w (matched_nodes s))"
    by (metis append_take_drop_id set_append)
  then show ?thesis
    using a by (auto simp: memo_keys_recorded_def ClearMap_def erase_all_eq dom_def split: if_splits)
qed

lemma recorded_push: "memo_keys_recorded s \<Longrightarrow> memo_keys_recorded (memo_push k e s)"
  by (auto simp: memo_keys_recorded_def memo_push_def)

lemma recorded_bump: "memo_keys_recorded s \<Longrightarrow> memo_keys_recorded (s\<lparr>next_object := n\<rparr>)"
  by (auto simp: memo_keys_recorded_def)

lemma keys_recorded_invariant:
  shows "memo_keys_recorded s1 \<Longrightarrow> VisitDFPattern M p e s1 = Inr (b, s') \<Longrightarrow> memo_keys_recorded s'"
    and "memo_keys_recorded s2 \<Longrightarrow> DFPatternFunctor_VisitDFPattern M p2 e2 s2 = Inr (b2, s2') \<Longrightarrow>
           memo_keys_recorded s2'"
    and "memo_keys_recorded s3 \<Longrightarrow> match_args M w args es3 s3 = Inr (b3, s3') \<Longrightarrow>
           memo_keys_recorded s3'"
    and "memo_keys_recorded s4 \<Longrightarrow> visit_args_loop M ps4 es4 s4 = Inr (b4, s4') \<Longrightarrow>
           memo_keys_recorded s4'"
proof (induction M p e s1 and M p2 e2 s2 and M w args es3 s3 and M ps4 es4 s4
    arbitrary: b s' and b2 s2' and b3 s3' and b4 s4'
    rule: VisitDFPattern_DFPatternFunctor_VisitDFPattern_match_args_visit_args_loop.induct)
  case (1 M pattern expr0 s)
  note rec = "1.prems"(1)
  from "1.prems"(2) obtain expr where j: "TryGetValOfVar expr0 (var2val M) (autojump M) = Inr expr"
    by (auto simp: VisitDFPattern.simps[of M pattern expr0 s] split: sum.splits)
  show ?case
  proof (cases "memoize s \<and> memo s (pid pattern) \<noteq> None")
    case True
    with "1.prems"(2) j have "s' = s"
      by (auto simp: VisitDFPattern.simps[of M pattern expr0 s] split: if_splits)
    then show ?thesis using rec by simp
  next
    case False
    with "1.prems"(2) j obtain out sd where
      d: "DFPatternFunctor_VisitDFPattern M pattern expr s = Inr (out, sd)"
      and r: "s' = (if out then memo_push (pid pattern) expr sd
                    else ClearMap (length (matched_nodes s)) sd)"
      by (auto simp: VisitDFPattern.simps[of M pattern expr0 s] split: sum.splits if_splits)
    from "1.IH"[OF j False rec d] show ?thesis
      using r by (simp add: recorded_push recorded_ClearMap)
  qed
next
  case (2 M pattern expr0 s)
  note rec = "2.prems"(1)
  note run = "2.prems"(2)
  show ?case
  proof (cases pattern)
    case (OrPattern i l r)
    from run OrPattern obtain expr b s1 where j: "TryGetValOfVar expr0 (var2val M) (autojump M) = Inr expr"
      and v1: "VisitDFPattern M l expr s = Inr (b, s1)"
      and r: "if b then s2' = s1 else VisitDFPattern M r expr s1 = Inr (b2, s2')"
      by (auto simp: DFPatternFunctor_VisitDFPattern.simps split: sum.splits if_splits)
    note r1 = "2.IH"(1)[OF OrPattern j rec v1]
    show ?thesis
    proof (cases b)
      case True
      then show ?thesis using r r1 by simp
    next
      case False
      with r have v2: "VisitDFPattern M r expr s1 = Inr (b2, s2')" by simp
      show ?thesis by (rule "2.IH"(2)[OF OrPattern j v1 refl False r1 v2])
    qed
  next
    case (AndPattern i l r)
    from run AndPattern obtain expr b s1 where j: "TryGetValOfVar expr0 (var2val M) (autojump M) = Inr expr"
      and v1: "VisitDFPattern M l expr s = Inr (b, s1)"
      and r: "if b then VisitDFPattern M r expr s1 = Inr (b2, s2') else s2' = s1"
      by (auto simp: DFPatternFunctor_VisitDFPattern.simps split: sum.splits if_splits)
    note r1 = "2.IH"(3)[OF AndPattern j rec v1]
    show ?thesis
    proof (cases b)
      case False
      then show ?thesis using r r1 by simp
    next
      case True
      with r have v2: "VisitDFPattern M r expr s1 = Inr (b2, s2')" by simp
      show ?thesis by (rule "2.IH"(4)[OF AndPattern j v1 refl True r1 v2])
    qed
  next
    case (NotPattern i q)
    from run NotPattern obtain expr b where j: "TryGetValOfVar expr0 (var2val M) (autojump M) = Inr expr"
      and v1: "VisitDFPattern M q expr s = Inr (b, s2')"
      by (auto simp: DFPatternFunctor_VisitDFPattern.simps split: sum.splits if_splits)
    show ?thesis by (rule "2.IH"(5)[OF NotPattern j rec v1])
  next
    case (AttrPattern i q attrs)
    from run AttrPattern obtain expr b where j: "TryGetValOfVar expr0 (var2val M) (autojump M) = Inr expr"
      and v1: "VisitDFPattern M q expr s = Inr (b, s2')"
      by (auto simp: DFPatternFunctor_VisitDFPattern.simps split: sum.splits if_splits)
    show ?thesis by (rule "2.IH"(6)[OF AttrPattern j rec v1])
  next
    case (CallPattern i f args)
    show ?thesis
    proof (cases "s2' = s")
      case True
      then show ?thesis using rec by simp
    next
      case False
      with run CallPattern obtain expr cop cargs cattrs mo s1 where
        j: "TryGetValOfVar expr0 (var2val M) (autojump M) = Inr expr"
        and n: "node expr = CallNode cop cargs cattrs"
        and v1: "VisitDFPattern M f cop s = Inr (mo, s1)"
        by (auto simp: DFPatternFunctor_VisitDFPattern.simps Let_def
            split: sum.splits if_splits enode.splits)
      note r1 = "2.IH"(7)[OF CallPattern j refl n rec v1]
      show ?thesis
      proof (cases mo)
        case True
        let ?w2 = "length (matched_nodes s1)"
        from run CallPattern j n v1 True obtain m1 s2 where
          ma: "match_args M ?w2 args cargs s1 = Inr (m1, s2)"
          by (auto simp: DFPatternFunctor_VisitDFPattern.simps Let_def split: sum.splits)
        note r2 = "2.IH"(8)[OF CallPattern j refl n v1 refl True refl r1 ma]
        show ?thesis
        proof (cases m1)
          case m1: True
          with run CallPattern j n v1 True ma have "s2' = s2"
            by (simp add: DFPatternFunctor_VisitDFPattern.simps Let_def)
          then show ?thesis using r2 by simp
        next
          case m1: False
          show ?thesis
          proof (cases "\<exists>name. get_op_node pattern = Some name \<and> (name = ''add'' \<or> name = ''multiply'')")
            case no: False
            with run CallPattern j n v1 True ma m1 have "s2' = s2"
              by (auto simp: DFPatternFunctor_VisitDFPattern.simps Let_def split: option.splits if_splits)
            then show ?thesis using r2 by simp
          next
            case yes: True
            then obtain name where g: "get_op_node pattern = Some name"
              and nameq: "name = ''add'' \<or> name = ''multiply''" by blast
            from run CallPattern j n v1 True ma m1 g nameq obtain ps where
              a: "args = Some ps"
              and ma2: "match_args M ?w2 (Some (reverse ps)) cargs s2 = Inr (b2, s2')"
              by (auto simp: DFPatternFunctor_VisitDFPattern.simps Let_def
                  split: option.splits sum.splits if_splits)
            show ?thesis
              by (rule "2.IH"(9)[OF CallPattern j refl n v1 refl True refl ma refl m1 g nameq a r2 ma2])
          qed
        qed
      next
        case mo: False
        let ?sa = "ClearMap (length (matched_nodes s)) s1"
        have ra: "memo_keys_recorded ?sa" using r1 by (rule recorded_ClearMap)
        show ?thesis
        proof (cases "assoc_divide_applies pattern args expr cargs")
          case (Inl err)
          with run CallPattern j n v1 mo show ?thesis
            by (simp add: DFPatternFunctor_VisitDFPattern.simps Let_def)
        next
          case (Inr ap)
          show ?thesis
          proof (cases ap)
            case None
            show ?thesis
            proof (cases "find_assoc_multiply pattern f args expr cargs (next_object ?sa)")
              case fl: (Inl err)
              with run CallPattern j n v1 mo Inr None show ?thesis
                by (simp add: DFPatternFunctor_VisitDFPattern.simps Let_def)
            next
              case fr: (Inr fm)
              show ?thesis
              proof (cases fm)
                case fn: None
                with run CallPattern j n v1 mo Inr None fr have "s2' = ?sa"
                  by (simp add: DFPatternFunctor_VisitDFPattern.simps Let_def)
                then show ?thesis using ra by simp
              next
                case fs: (Some dv)
                with run CallPattern j n v1 mo Inr None fr have
                  vd: "VisitDFPattern M dv expr (?sa\<lparr>next_object := next_object ?sa + 2\<rparr>) = Inr (b2, s2')"
                  by (simp add: DFPatternFunctor_VisitDFPattern.simps Let_def)
                show ?thesis
                  by (rule "2.IH"(10)[OF CallPattern j refl n v1 refl mo refl Inr None fr fs
                        recorded_bump[OF ra] vd])
              qed
            qed
          next
            case (Some gg)
            obtain g gargs where gg: "gg = (g, gargs)" by (cases gg)
            from run CallPattern j n v1 mo Inr Some gg obtain mul0 where
              mk0: "mk_assoc_divide f args g gargs 0 (next_object ?sa) = Inr mul0"
              by (auto simp: DFPatternFunctor_VisitDFPattern.simps Let_def split: sum.splits)
            from run CallPattern j n v1 mo Inr Some gg mk0 obtain out0 s3 where
              v0: "VisitDFPattern M mul0 expr (?sa\<lparr>next_object := next_object ?sa + 2\<rparr>) = Inr (out0, s3)"
              by (auto simp: DFPatternFunctor_VisitDFPattern.simps Let_def split: sum.splits)
            note r3 = "2.IH"(11)[OF CallPattern j refl n v1 refl mo refl Inr Some gg[symmetric] mk0
                recorded_bump[OF ra] v0]
            show ?thesis
            proof (cases out0)
              case True
              with run CallPattern j n v1 mo Inr Some gg mk0 v0 have "s2' = s3"
                by (simp add: DFPatternFunctor_VisitDFPattern.simps Let_def)
              then show ?thesis using r3 by simp
            next
              case o0: False
              let ?sb = "ClearMap (length (matched_nodes s)) s3"
              have rb: "memo_keys_recorded ?sb" using r3 by (rule recorded_ClearMap)
              from run CallPattern j n v1 mo Inr Some gg mk0 v0 o0 obtain mul1 where
                mk1: "mk_assoc_divide f args g gargs 1 (next_object ?sb) = Inr mul1"
                by (auto simp: DFPatternFunctor_VisitDFPattern.simps Let_def split: sum.splits)
              from run CallPattern j n v1 mo Inr Some gg mk0 v0 o0 mk1 obtain out1 s5 where
                v1': "VisitDFPattern M mul1 expr (?sb\<lparr>next_object := next_object ?sb + 2\<rparr>) = Inr (out1, s5)"
                and fin: "s2' = (if out1 then s5 else ClearMap (length (matched_nodes s)) s5)"
                by (auto simp: DFPatternFunctor_VisitDFPattern.simps Let_def split: sum.splits if_splits)
              note r5 = "2.IH"(12)[OF CallPattern j refl n v1 refl mo refl Inr Some gg[symmetric] mk0
                  v0 refl o0 refl mk1 recorded_bump[OF rb] v1']
              show ?thesis using fin r5 by (simp add: recorded_ClearMap)
            qed
          qed
        qed
      qed
    qed
  next
    case (FunctionPattern i params body)
    show ?thesis
    proof (cases "s2' = s")
      case True
      then show ?thesis using rec by simp
    next
      case False
      with run FunctionPattern obtain expr fparams fbody fattrs m s1 where
        j: "TryGetValOfVar expr0 (var2val M) (autojump M) = Inr expr"
        and n: "node expr = FunctionNode fparams fbody fattrs"
        and l: "(case params of None \<Rightarrow> Inr (True, s)
                 | Some ps \<Rightarrow> if length ps = length fparams then visit_args_loop M ps fparams s
                              else Inr (False, s)) = Inr (m, s1)"
        and r: "if m then VisitDFPattern M body fbody s1 = Inr (b2, s2') else s2' = s1"
        by (auto simp: DFPatternFunctor_VisitDFPattern.simps
            split: sum.splits if_splits enode.splits)
      have r1: "memo_keys_recorded s1"
      proof (cases params)
        case None
        with l show ?thesis using rec by simp
      next
        case (Some ps)
        show ?thesis
        proof (cases "length ps = length fparams")
          case True
          with l Some have lp: "visit_args_loop M ps fparams s = Inr (m, s1)" by simp
          show ?thesis by (rule "2.IH"(13)[OF FunctionPattern j n Some True rec lp])
        next
          case False
          with l Some show ?thesis using rec by simp
        qed
      qed
      show ?thesis
      proof (cases m)
        case True
        with r have v2: "VisitDFPattern M body fbody s1 = Inr (b2, s2')" by simp
        show ?thesis by (rule "2.IH"(14)[OF FunctionPattern j n l refl True r1 v2])
      next
        case False
        then show ?thesis using r r1 by simp
      qed
    qed
  next
    case (TupleGetItemPattern i q index)
    show ?thesis
    proof (cases "s2' = s")
      case True
      then show ?thesis using rec by simp
    next
      case False
      with run TupleGetItemPattern obtain expr etuple eindex b where
        j: "TryGetValOfVar expr0 (var2val M) (autojump M) = Inr expr"
        and n: "node expr = TupleGetItemNode etuple eindex" "index = - 1 \<or> index = eindex"
        and v1: "VisitDFPattern M q etuple s = Inr (b, s2')"
        by (auto simp: DFPatternFunctor_VisitDFPattern.simps
            split: sum.splits if_splits enode.splits)
      show ?thesis by (rule "2.IH"(15)[OF TupleGetItemPattern j n rec v1])
    qed
  next
    case (TuplePattern i fs)
    show ?thesis
    proof (cases "s2' = s")
      case True
      then show ?thesis using rec by simp
    next
      case False
      with run TuplePattern obtain expr efields ps where
        j: "TryGetValOfVar expr0 (var2val M) (autojump M) = Inr expr"
        and n: "node expr = TupleNode efields" "fs = Some ps" "length ps = length efields"
        and v1: "visit_args_loop M ps efields s = Inr (b2, s2')"
        by (auto simp: DFPatternFunctor_VisitDFPattern.simps
            split: sum.splits if_splits enode.splits option.splits)
      show ?thesis by (rule "2.IH"(16)[OF TuplePattern j n rec v1])
    qed
  next
    case (TypePattern i q t)
    show ?thesis
    proof (cases "s2' = s")
      case True
      then show ?thesis using rec by simp
    next
      case False
      with run TypePattern obtain expr expr_type where
        j: "TryGetValOfVar expr0 (var2val M) (autojump M) = Inr expr"
        and n: "checked_type expr = Some expr_type" "t = expr_type"
        and v1: "VisitDFPattern M q expr s = Inr (b2, s2')"
        by (auto simp: DFPatternFunctor_VisitDFPattern.simps
            split: sum.splits if_splits option.splits)
      show ?thesis by (rule "2.IH"(17)[OF TypePattern j n rec v1])
    qed
  next
    case (ShapePattern i q dims)
    show ?thesis
    proof (cases "s2' = s")
      case True
      then show ?thesis using rec by simp
    next
      case False
      with run ShapePattern obtain actual where
        n: "shape_accessor expr0 = Some actual" "shape_equal M dims actual"
        and v1: "VisitDFPattern M q expr0 s = Inr (b2, s2')"
        by (auto simp: DFPatternFunctor_VisitDFPattern.simps
            split: sum.splits if_splits option.splits)
      show ?thesis by (rule "2.IH"(18)[OF ShapePattern n rec v1])
    qed
  next
    case (DataTypePattern i q dtype)
    show ?thesis
    proof (cases "s2' = s")
      case True
      then show ?thesis using rec by simp
    next
      case False
      with run DataTypePattern obtain expr_type ndim where
        n: "checked_type expr0 = Some expr_type" "expr_type = DynTensorType ndim dtype"
        and v1: "VisitDFPattern M q expr0 s = Inr (b2, s2')"
        by (auto simp: DFPatternFunctor_VisitDFPattern.simps
            split: sum.splits if_splits option.splits ty.splits)
      show ?thesis by (rule "2.IH"(19)[OF DataTypePattern n refl rec v1])
    qed
  qed (use run rec in \<open>auto simp: DFPatternFunctor_VisitDFPattern.simps split: sum.splits\<close>)
next
  case (3 M watermark2 pattern_args expr_args s)
  note rec = "3.prems"(1)
  from "3.prems"(2) obtain m s1 where
    l: "(case pattern_args of None \<Rightarrow> Inr (True, s)
         | Some ps \<Rightarrow> if length ps = length expr_args then visit_args_loop M ps expr_args s
                      else Inr (False, s)) = Inr (m, s1)"
    and r: "s3' = (if \<not> m then ClearMap watermark2 s1 else s1)"
    by (auto simp: match_args.simps[of M watermark2 pattern_args expr_args s]
        split: sum.splits if_splits)
  have r1: "memo_keys_recorded s1"
  proof (cases pattern_args)
    case None
    with l show ?thesis using rec by simp
  next
    case (Some ps)
    show ?thesis
    proof (cases "length ps = length expr_args")
      case True
      with l Some have "visit_args_loop M ps expr_args s = Inr (m, s1)" by simp
      from "3.IH"[OF Some True rec this] show ?thesis .
    next
      case False
      with l Some show ?thesis using rec by simp
    qed
  qed
  show ?case using r r1 by (simp add: recorded_ClearMap)
next
  case (4 M es s)
  then show ?case by simp
next
  case (5 M p ps s)
  then show ?case by simp
next
  case (6 M p ps e es s)
  from "6.prems"(2) obtain m s1 where v: "VisitDFPattern M p e s = Inr (m, s1)"
    and r: "if m then visit_args_loop M ps es s1 = Inr (b4, s4') else s4' = s1"
    by (auto split: sum.splits if_splits)
  note r1 = "6.IH"(1)[OF "6.prems"(1) v]
  show ?case
  proof (cases m)
    case True
    with r have "visit_args_loop M ps es s1 = Inr (b4, s4')" by simp
    from "6.IH"(2)[OF v refl True r1 this] show ?thesis .
  next
    case False
    then show ?thesis using r r1 by simp
  qed
qed

lemma recorded_cleared: "memo_keys_recorded (s\<lparr>memo := Map.empty, matched_nodes := []\<rparr>)"
  by (simp add: memo_keys_recorded_def)

lemma ClearMap_0_recorded:
  "memo_keys_recorded s \<Longrightarrow> memo (ClearMap 0 s) = Map.empty \<and> matched_nodes (ClearMap 0 s) = []"
  by (auto simp: memo_keys_recorded_def ClearMap_def erase_all_eq fun_eq_iff dom_def)

lemma memo_inv_cleared: "memo_inv (s\<lparr>memo := Map.empty, matched_nodes := []\<rparr>)"
  by (simp add: memo_inv_def)

lemma memo_inv_card:
  assumes "memo_inv s"
  shows "length (matched_nodes s) = card (dom (memo s)) \<and> (\<forall>k \<in> dom (memo s). \<exists>x. memo s k = Some [x])"
  using assms by (auto simp: memo_inv_def distinct_card)

subsection \<open>Variable patterns\<close>

lemma var_pattern_visitors:
  "node d = DataflowVarNode n \<Longrightarrow> VisitDFPattern_VarPattern h d = (h = [] \<or> h = n)"
  "(\<forall>n. node e \<noteq> DataflowVarNode n) \<Longrightarrow> \<not> VisitDFPattern_DataflowVarPattern h e"
  by (auto simp: VisitDFPattern_VarPattern_def VisitDFPattern_DataflowVarPattern_def
      split: enode.splits)

lemma var_patterns_without_jump:
  assumes "TryGetValOfVar e (var2val M) aj = Inr e"
  shows "Match M (VarPattern i h) e aj s
          = Inr (VisitDFPattern_VarPattern h e,
                 if VisitDFPattern_VarPattern h e
                 then memo_push i e (s\<lparr>memo := Map.empty, matched_nodes := []\<rparr>)
                 else ClearMap 0 (s\<lparr>memo := Map.empty, matched_nodes := []\<rparr>))"
    and "Match M (DataflowVarPattern i h) e aj s
          = Inr (VisitDFPattern_DataflowVarPattern h e,
                 if VisitDFPattern_DataflowVarPattern h e
                 then memo_push i e (s\<lparr>memo := Map.empty, matched_nodes := []\<rparr>)
                 else ClearMap 0 (s\<lparr>memo := Map.empty, matched_nodes := []\<rparr>))"
  using assms
  by (simp_all add: Match_def VisitDFPattern.simps DFPatternFunctor_VisitDFPattern.simps)

text \<open>
  C9: the two visitors do what the claim says (a variable pattern accepts a dataflow
  variable, a dataflow-variable pattern rejects an ordinary variable), and so does the
  match wherever the jump step leaves the expression alone. Under auto-jump the dispatcher
  replaces a bound variable by its value before it dispatches, so the public match rejects
  a bound dataflow variable under a variable pattern with an empty hint, and accepts an
  ordinary variable bound to a dataflow variable under a dataflow-variable pattern.
\<close>

theorem C9_var_patterns_are_judged_after_the_jump:
  "VisitDFPattern_VarPattern [] example_dataflow_var
   \<and> MatchExprPattern example_matcher 2 (VarPattern 1 []) example_dataflow_var
        (Some [16 \<mapsto> example_add_call])
      = Inr (False, DFPatternMatcher_state 2)
   \<and> \<not> VisitDFPattern_DataflowVarPattern ''w'' example_plain_var
   \<and> MatchExprPattern example_matcher 2 (DataflowVarPattern 1 ''w'') example_plain_var
        (Some [18 \<mapsto> example_dataflow_value])
      = Inr (True, memo_push 1 example_dataflow_value (DFPatternMatcher_state 2))"
  by (simp add: MatchExprPattern_def Match_def VisitDFPattern.simps DFPatternFunctor_VisitDFPattern.simps
      TryGetValOfVar_def is_VarNode_def example_matcher_def
      DFPatternMatcher_state_def example_dataflow_var_def example_plain_var_def
      example_dataflow_value_def example_add_call_def
      VisitDFPattern_VarPattern_def VisitDFPattern_DataflowVarPattern_def ClearMap_def memo_push_def)

text \<open>
  C10: with auto-jump enabled and a variable-to-value mapping defined, a variable that has
  no entry in the mapping is left unchanged by the jump step, nothing is raised, and the
  dispatcher goes on to match the pattern against the variable itself.
\<close>

theorem C10_autojump_unbound_var_unchanged:
  assumes "autojump M" and "var2val M = Some m" and "is_VarNode e" and "m (eid e) = None"
  shows "TryGetValOfVar e (var2val M) (autojump M) = Inr e
         \<and> VisitDFPattern M p e s =
             (if memoize s \<and> memo s (pid p) \<noteq> None then
                (if length (the (memo s (pid p))) \<noteq> 1 then Inl MemoSizeNotOne
                 else Inr (same_as e (the (memo s (pid p)) ! 0), s))
              else
                (case DFPatternFunctor_VisitDFPattern M p e s of
                   Inl err \<Rightarrow> Inl err
                 | Inr (out, s1) \<Rightarrow>
                     if out then Inr (out, memo_push (pid p) e s1)
                     else Inr (out, ClearMap (length (matched_nodes s)) s1)))
         \<and> DFPatternFunctor_VisitDFPattern M (VarPattern i h) e s
             = Inr (VisitDFPattern_VarPattern h e, s)"
  using assms
  by (simp add: TryGetValOfVar_def VisitDFPattern.simps[of M p e s]
      DFPatternFunctor_VisitDFPattern.simps[of M "VarPattern i h"])

theorem C10_witness:
  "TryGetValOfVar (Expr 11 None None (VarNode ''w'')) (var2val example_autojump_matcher)
      (autojump example_autojump_matcher) = Inr (Expr 11 None None (VarNode ''w''))
   \<and> VisitDFPattern example_autojump_matcher (VarPattern 1 ''w'') (Expr 11 None None (VarNode ''w''))
        (DFPatternMatcher_state 2)
      = Inr (True, memo_push 1 (Expr 11 None None (VarNode ''w'')) (DFPatternMatcher_state 2))"
proof -
  have a: "autojump example_autojump_matcher"
    by (simp add: example_autojump_matcher_def)
  have b: "var2val example_autojump_matcher = Some [10 \<mapsto> example_add_call]"
    by (simp add: example_autojump_matcher_def)
  have c: "is_VarNode (Expr 11 None None (VarNode ''w''))"
    by (simp add: is_VarNode_def)
  have d: "[10 \<mapsto> example_add_call] (eid (Expr 11 None None (VarNode ''w''))) = None"
    by simp
  show ?thesis
    using C10_autojump_unbound_var_unchanged[OF a b c d, of "VarPattern 1 ''w''" "DFPatternMatcher_state 2" 1 "''w''"]
    by (simp add: DFPatternMatcher_state_def VisitDFPattern_VarPattern_def)
qed

subsection \<open>The memo table\<close>



subsection \<open>Shape patterns\<close>

declare shape_equal_loop.simps [simp del]






subsection \<open>Auto-jump without a mapping\<close>




subsection \<open>Variable patterns under auto-jump\<close>

text \<open>
  C3: the dispatcher jumps before it dispatches, so a variable pattern is judged against the
  value bound to the variable, not against the variable: the visitor accepts the variable
  itself, the public match of the same pattern against it returns false.
\<close>

theorem C3_var_pattern_is_judged_against_bound_value:
  "VisitDFPattern_VarPattern '''' example_bound_var
   \<and> Match example_autojump_matcher (VarPattern 1 '''') example_bound_var True (DFPatternMatcher_state 2)
      = Inr (False, DFPatternMatcher_state 2)"
  by (simp add: Match_def VisitDFPattern.simps DFPatternFunctor_VisitDFPattern.simps
      TryGetValOfVar_def is_VarNode_def example_autojump_matcher_def example_matcher_def
      DFPatternMatcher_state_def example_bound_var_def example_add_call_def
      VisitDFPattern_VarPattern_def ClearMap_def)

subsection \<open>Rollback\<close>

text \<open>
  C2: when the public match returns false, the memo table and the stack of matched nodes
  are both empty on return, for every pattern and every expression.
\<close>

theorem C2_failed_match_rolls_back:
  assumes "Match M p e aj s = Inr (False, s')"
  shows "memo s' = Map.empty \<and> matched_nodes s' = []"
proof -
  let ?M = "M\<lparr>autojump := aj\<rparr>"
  let ?s0 = "s\<lparr>memo := Map.empty, matched_nodes := []\<rparr>"
  from assms obtain expr sd where
    d: "DFPatternFunctor_VisitDFPattern ?M p expr ?s0 = Inr (False, sd)"
    and r: "s' = ClearMap 0 sd"
    by (auto simp: Match_def VisitDFPattern.simps[of ?M p e ?s0] split: sum.splits if_splits)
  have "memo_keys_recorded sd"
    using keys_recorded_invariant(2)[OF recorded_cleared d] .
  then show ?thesis using r ClearMap_0_recorded by simp
qed

theorem C2_witness:
  "Match example_matcher (ConstantPattern 0) example_bound_var False (DFPatternMatcher_state 1)
     = Inr (False, DFPatternMatcher_state 1)
   \<and> memo (DFPatternMatcher_state 1) = Map.empty
   \<and> matched_nodes (DFPatternMatcher_state 1) = []"
proof -
  have m: "Match example_matcher (ConstantPattern 0) example_bound_var False (DFPatternMatcher_state 1)
     = Inr (False, DFPatternMatcher_state 1)"
    by (simp add: Match_def VisitDFPattern.simps DFPatternFunctor_VisitDFPattern.simps
        TryGetValOfVar_def example_matcher_def DFPatternMatcher_state_def example_bound_var_def
        VisitDFPattern_ConstantPattern_def ClearMap_def)
  from C2_failed_match_rolls_back[OF m] m show ?thesis by simp
qed

subsection \<open>Negation\<close>

text \<open>
  C6, as stated, fails under auto-jump when the value bound to the variable is itself a
  bound variable: the visitor of Not jumps once more than the dispatcher does for the
  inner pattern alone, and both matches return false.
\<close>

theorem C6_counterexample:
  "Match example_chain_matcher (ConstantPattern 0) example_bound_var True (DFPatternMatcher_state 2)
     = Inr (False, DFPatternMatcher_state 2)
   \<and> Match example_chain_matcher (NotPattern 1 (ConstantPattern 0)) example_bound_var True
       (DFPatternMatcher_state 2)
     = Inr (False, DFPatternMatcher_state 2)"
  by (simp add: Match_def VisitDFPattern.simps DFPatternFunctor_VisitDFPattern.simps
      TryGetValOfVar_def is_VarNode_def example_chain_matcher_def example_matcher_def
      DFPatternMatcher_state_def example_bound_var_def VisitDFPattern_ConstantPattern_def
      ClearMap_def memo_push_def)

text \<open>
  C6, amended: when jumping from the jumped expression changes nothing (always so when
  auto-jump is off, or the expression is not a bound variable, or its value is not a bound
  variable), the match of Not(p) returns the negation of the match of p (and raises what
  it raises); and for every pattern and every expression, the match of Not(p) leaves no
  binding of p behind: on return the memo and the stack hold the Not pattern alone, bound
  to the jumped expression, when it matched, and nothing when it did not.
\<close>

theorem C6_not_duality:
  "((\<forall>e1. TryGetValOfVar e (var2val M) aj = Inr e1 \<longrightarrow> TryGetValOfVar e1 (var2val M) aj = Inr e1) \<longrightarrow>
      map_sum id fst (Match M (NotPattern i p) e aj s)
        = map_sum id (\<lambda>r. \<not> fst r) (Match M p e aj s))
   \<and> (\<forall>b s'. Match M (NotPattern i p) e aj s = Inr (b, s') \<longrightarrow>
        matched_nodes s' = (if b then [i] else [])
        \<and> (\<exists>e1. TryGetValOfVar e (var2val M) aj = Inr e1
              \<and> memo s' = (if b then [i \<mapsto> [e1]] else Map.empty)))"
proof -
  let ?M = "M\<lparr>autojump := aj\<rparr>"
  let ?s0 = "s\<lparr>memo := Map.empty, matched_nodes := []\<rparr>"
  have part1: "map_sum id fst (Match M (NotPattern i p) e aj s)
           = map_sum id (\<lambda>r. \<not> fst r) (Match M p e aj s)"
    if idem: "\<And>e1. TryGetValOfVar e (var2val M) aj = Inr e1 \<Longrightarrow> TryGetValOfVar e1 (var2val M) aj = Inr e1"
  proof (cases "TryGetValOfVar e (var2val M) aj")
    case (Inl err)
    then show ?thesis
      by (simp add: Match_def VisitDFPattern.simps[of ?M _ e ?s0])
  next
    case (Inr e1)
    note j1 = Inr
    note j2 = idem[OF Inr]
    have same: "VisitDFPattern ?M p e1 ?s0 = VisitDFPattern ?M p e ?s0"
      by (simp add: VisitDFPattern.simps[of ?M p e1 ?s0] VisitDFPattern.simps[of ?M p e ?s0] j1 j2)
    have notv: "VisitDFPattern ?M (NotPattern i p) e ?s0 =
        (case VisitDFPattern ?M p e ?s0 of
           Inl err \<Rightarrow> Inl err
         | Inr (b, s1) \<Rightarrow>
             if \<not> b then Inr (True, memo_push i e1 s1) else Inr (False, ClearMap 0 s1))"
      by (simp add: VisitDFPattern.simps[of ?M "NotPattern i p" e ?s0] j1
          DFPatternFunctor_VisitDFPattern.simps[of ?M "NotPattern i p" e1 ?s0] j2 same
          split: sum.splits)
    show ?thesis
      by (simp add: Match_def notv split: sum.splits)
  qed
  have part2: "matched_nodes s' = (if b then [i] else [])
        \<and> (\<exists>e1. TryGetValOfVar e (var2val M) aj = Inr e1
              \<and> memo s' = (if b then [i \<mapsto> [e1]] else Map.empty))"
    if run: "Match M (NotPattern i p) e aj s = Inr (b, s')" for b s'
  proof -
    from run obtain e1 e2 bp s1 where j1: "TryGetValOfVar e (var2val M) aj = Inr e1"
      and j2: "TryGetValOfVar e1 (var2val M) aj = Inr e2"
      and v: "VisitDFPattern ?M p e2 ?s0 = Inr (bp, s1)"
      and r: "b = (\<not> bp)" "s' = (if \<not> bp then memo_push i e1 s1 else ClearMap 0 s1)"
      by (auto simp: Match_def VisitDFPattern.simps[of ?M "NotPattern i p" e ?s0]
          DFPatternFunctor_VisitDFPattern.simps[of ?M "NotPattern i p"]
          split: sum.splits if_splits)
    have rec: "memo_keys_recorded s1"
      using keys_recorded_invariant(1)[OF recorded_cleared v] .
    show ?thesis
    proof (cases bp)
      case True
      then show ?thesis using r j1 ClearMap_0_recorded[OF rec] by simp
    next
      case False
      from v False obtain e3 sd where "s1 = ClearMap 0 sd"
        and d: "DFPatternFunctor_VisitDFPattern ?M p e3 ?s0 = Inr (False, sd)"
        by (auto simp: VisitDFPattern.simps[of ?M p e2 ?s0] split: sum.splits if_splits)
      moreover have "memo_keys_recorded sd"
        using keys_recorded_invariant(2)[OF recorded_cleared d] .
      ultimately have "memo s1 = Map.empty" "matched_nodes s1 = []"
        using ClearMap_0_recorded by auto
      then show ?thesis using r j1 False by (simp add: memo_push_def)
    qed
  qed
  show ?thesis using part1 part2 by blast
qed

theorem C6_witness:
  "map_sum id fst (Match example_autojump_matcher (NotPattern 1 (ConstantPattern 0)) example_bound_var True
      (DFPatternMatcher_state 2))
   = map_sum id (\<lambda>r. \<not> fst r)
      (Match example_autojump_matcher (ConstantPattern 0) example_bound_var True (DFPatternMatcher_state 2))
   \<and> Match example_autojump_matcher (NotPattern 1 (ConstantPattern 0)) example_bound_var True
        (DFPatternMatcher_state 2)
      = Inr (True, memo_push 1 example_add_call (DFPatternMatcher_state 2))
   \<and> matched_nodes (memo_push 1 example_add_call (DFPatternMatcher_state 2)) = [1]
   \<and> memo (memo_push 1 example_add_call (DFPatternMatcher_state 2)) = [1 \<mapsto> [example_add_call]]"
proof -
  have idem: "\<forall>e1. TryGetValOfVar example_bound_var (var2val example_autojump_matcher) True = Inr e1
      \<longrightarrow> TryGetValOfVar e1 (var2val example_autojump_matcher) True = Inr e1"
    by (simp add: TryGetValOfVar_def example_autojump_matcher_def example_bound_var_def
        example_add_call_def is_VarNode_def)
  have run: "Match example_autojump_matcher (NotPattern 1 (ConstantPattern 0)) example_bound_var True
        (DFPatternMatcher_state 2)
      = Inr (True, memo_push 1 example_add_call (DFPatternMatcher_state 2))"
    by (simp add: Match_def VisitDFPattern.simps DFPatternFunctor_VisitDFPattern.simps
        TryGetValOfVar_def is_VarNode_def example_autojump_matcher_def example_matcher_def
        DFPatternMatcher_state_def example_bound_var_def example_add_call_def
        VisitDFPattern_ConstantPattern_def ClearMap_def memo_push_def)
  note t = C6_not_duality[of example_bound_var example_autojump_matcher True 1 "ConstantPattern 0"
      "DFPatternMatcher_state 2"]
  from t idem have one: "map_sum id fst (Match example_autojump_matcher (NotPattern 1 (ConstantPattern 0)) example_bound_var True
      (DFPatternMatcher_state 2))
   = map_sum id (\<lambda>r. \<not> fst r)
      (Match example_autojump_matcher (ConstantPattern 0) example_bound_var True (DFPatternMatcher_state 2))"
    by blast
  from t run have two: "matched_nodes (memo_push 1 example_add_call (DFPatternMatcher_state 2)) = [1]
     \<and> (\<exists>e1. TryGetValOfVar example_bound_var (var2val example_autojump_matcher) True = Inr e1
          \<and> memo (memo_push 1 example_add_call (DFPatternMatcher_state 2)) = [1 \<mapsto> [e1]])"
    by (metis (full_types))
  have j: "TryGetValOfVar example_bound_var (var2val example_autojump_matcher) True = Inr example_add_call"
    by (simp add: TryGetValOfVar_def example_autojump_matcher_def example_bound_var_def is_VarNode_def)
  show ?thesis using one run two j by auto
qed

subsection \<open>Example runs\<close>

lemma example_commutative_run:
  "Match example_matcher example_commutative_pattern example_add_const_call False
     (DFPatternMatcher_state 4) = Inr (True, example_commutative_state)"
  by (simp add: Match_def VisitDFPattern.simps DFPatternFunctor_VisitDFPattern.simps
      match_args.simps TryGetValOfVar_def example_matcher_def DFPatternMatcher_state_def
      example_commutative_pattern_def example_add_const_call_def example_add_op_def
      example_commutative_state_def memo_push_def ClearMap_def same_as_def get_op_node_def
      reverse_def VisitDFPattern_ConstantPattern_def VisitDFPattern_VarPattern_def)

lemma example_commutative_wf:
  "wf_pattern example_commutative_pattern"
  "pattern_ids example_commutative_pattern \<subseteq> {..<4}"
  by (auto simp: example_commutative_pattern_def wf_pattern.simps pattern_ids.simps)

lemma example_dominator_run:
  "Match1 40 example_matcher1 example_dominator_pattern example_chain0 (DFPatternMatcher_state 4)
     = Inr (True, example_dominator_state)"
  by (simp add: Match1_def VisitDFPattern1.simps DFPatternFunctor_VisitDFPattern1.simps
      MatchesPath1.simps MatchesPath1_loop.simps DominatesParent1_loop.simps
      DominatesParent1_children.simps example_matcher1_def example_graph_def
      example_dominator_pattern_def example_chain0_def example_chain1_def example_chain2_def
      example_var_x_def example_op_def example_dominator_state_def DFPatternMatcher_state_def
      is_call_op_def VisitDFPattern1_VarPattern_def memo_push_def ClearMap_def same_as_def)

subsection \<open>The memo table and the stack of matched nodes\<close>

text \<open>
  When memoization is never suspended (the matcher with auto-jump, which has no visitor for
  dominator patterns), after every public match that returns, whatever the outcome, the
  stack of matched nodes is as long as the memo has entries, and every pattern in the memo
  has exactly one expression.
\<close>

lemma Match_memo_matches_matched_nodes:
  assumes "memoize s" and "wf_pattern p" and "pattern_ids p \<subseteq> {..<next_object s}"
    and "Match M p e aj s = Inr (b, s')"
  shows "length (matched_nodes s') = card (dom (memo s'))
         \<and> (\<forall>k \<in> dom (memo s'). \<exists>x. memo s' k = Some [x])"
proof -
  let ?s0 = "s\<lparr>memo := Map.empty, matched_nodes := []\<rparr>"
  have v: "visitable p ?s0"
    using assms(1-3) by (simp add: visitable_def memo_inv_cleared)
  from visit_invariant(1)[OF v assms(4)[unfolded Match_def]]
  have "memo_inv s'" by (simp add: extends_def)
  then show ?thesis by (rule memo_inv_card)
qed

text \<open>
  C1: the invariant breaks on a match that traverses a dominator pattern (first revision).
  The path is explored with \<^verbatim>\<open>memoize_\<close> off, so the path pattern is dispatched
  again at every node of the path and recorded every time: on a chain of three calls it
  ends with two expressions in the memo and twice on the stack, five matched nodes for four
  memo entries. The dispatcher's own check that a memo entry holds one expression then
  fails as soon as the path pattern is visited again with memoization on, as in a tuple
  pattern whose second field is the path pattern.
\<close>

theorem C1_dominator_path_is_recorded_at_every_node:
  "Match1 40 example_matcher1 example_dominator_pattern example_chain0 (DFPatternMatcher_state 4)
     = Inr (True, example_dominator_state)
   \<and> length (matched_nodes example_dominator_state) = 5
   \<and> card (dom (memo example_dominator_state)) = 4
   \<and> memo example_dominator_state 1 = Some [example_chain1, example_chain2]
   \<and> Match1 40 example_matcher1 example_tuple_pattern example_tuple (DFPatternMatcher_state 5)
     = Inl MemoSizeNotOne"
proof -
  have "dom (memo example_dominator_state) = {0, 1, 2, 3}"
    by (auto simp: example_dominator_state_def)
  moreover have "Match1 40 example_matcher1 example_tuple_pattern example_tuple (DFPatternMatcher_state 5)
     = Inl MemoSizeNotOne"
    by (simp add: Match1_def VisitDFPattern1.simps DFPatternFunctor_VisitDFPattern1.simps
      MatchesPath1.simps MatchesPath1_loop.simps DominatesParent1_loop.simps
      DominatesParent1_children.simps visit_args_loop1.simps example_matcher1_def example_graph_def
      example_dominator_pattern_def example_chain0_def example_chain1_def example_chain2_def
      example_var_x_def example_op_def example_dominator_state_def DFPatternMatcher_state_def
      example_tuple_pattern_def example_tuple_def
      is_call_op_def VisitDFPattern1_VarPattern_def memo_push_def ClearMap_def same_as_def)
  ultimately show ?thesis
    by (simp add: example_dominator_run) (simp add: example_dominator_state_def)
qed

subsection \<open>Commutative operators\<close>

text \<open>
  C5, as stated, fails when the two operand patterns share a pattern object: one wildcard
  used for both operands matches each operand of add(a, b) alone, and the call pattern
  does not match, since the memo binds the wildcard to a and b is another object.
\<close>

theorem C5_counterexample:
  "Match example_matcher (WildcardPattern 1) (Expr 13 None None (VarNode ''a'')) False
     (DFPatternMatcher_state 4)
     = Inr (True, memo_push 1 (Expr 13 None None (VarNode ''a'')) (DFPatternMatcher_state 4))
   \<and> Match example_matcher (WildcardPattern 1) (Expr 14 None None (VarNode ''b'')) False
     (DFPatternMatcher_state 4)
     = Inr (True, memo_push 1 (Expr 14 None None (VarNode ''b'')) (DFPatternMatcher_state 4))
   \<and> Match example_matcher example_shared_operand_pattern example_add_call False
     (DFPatternMatcher_state 4)
     = Inr (False, DFPatternMatcher_state 4)"
  by (simp add: Match_def VisitDFPattern.simps DFPatternFunctor_VisitDFPattern.simps
      match_args.simps TryGetValOfVar_def example_matcher_def DFPatternMatcher_state_def
      example_shared_operand_pattern_def example_add_call_def example_add_op_def
      memo_push_def ClearMap_def same_as_def get_op_node_def reverse_def
      assoc_divide_applies_def find_assoc_multiply_def is_pattern_op_def)

lemma visit_args_loop_two:
  "visit_args_loop M [pa, pb] [ea, eb] s = Inr (b, sf) \<longleftrightarrow>
     (b \<and> (\<exists>s1. VisitDFPattern M pa ea s = Inr (True, s1) \<and> VisitDFPattern M pb eb s1 = Inr (True, sf)))
   \<or> (\<not> b \<and> (VisitDFPattern M pa ea s = Inr (False, sf)
          \<or> (\<exists>s1. VisitDFPattern M pa ea s = Inr (True, s1) \<and> VisitDFPattern M pb eb s1 = Inr (False, sf))))"
  by (auto split: sum.splits)

lemma commutative_call_loop:
  assumes n: "node e = CallNode cop [ea, eb] attrs"
    and o1: "node opx = OpNode name" and o2: "node cop = OpNode name"
    and nm: "name = ''add'' \<or> name = ''multiply''"
    and se: "structural_equal M opx cop"
    and mz: "memoize s"
    and wf: "wf_pattern (CallPattern i (ExprPattern j opx) (Some [pa, pb]))"
    and ids: "pattern_ids (CallPattern i (ExprPattern j opx) (Some [pa, pb])) \<subseteq> {..<next_object s}"
  shows "(\<exists>s'. Match M (CallPattern i (ExprPattern j opx) (Some [pa, pb])) e aj s = Inr (True, s'))
     \<longleftrightarrow>
       (\<exists>sf. visit_args_loop (M\<lparr>autojump := aj\<rparr>) [pa, pb] [ea, eb]
               (memo_push j cop (s\<lparr>memo := Map.empty, matched_nodes := []\<rparr>)) = Inr (True, sf))
     \<or> (\<exists>sf sg. visit_args_loop (M\<lparr>autojump := aj\<rparr>) [pa, pb] [ea, eb]
               (memo_push j cop (s\<lparr>memo := Map.empty, matched_nodes := []\<rparr>)) = Inr (False, sf)
           \<and> visit_args_loop (M\<lparr>autojump := aj\<rparr>) [pb, pa] [ea, eb]
               (memo_push j cop (s\<lparr>memo := Map.empty, matched_nodes := [], next_object := next_object sf\<rparr>))
               = Inr (True, sg))"
proof -
  let ?M = "M\<lparr>autojump := aj\<rparr>"
  let ?P = "CallPattern i (ExprPattern j opx) (Some [pa, pb])"
  let ?s0 = "s\<lparr>memo := Map.empty, matched_nodes := []\<rparr>"
  let ?s1 = "memo_push j cop ?s0"
  have nv: "\<not> is_VarNode e" "\<not> is_VarNode cop" using n o2 by (simp_all add: is_VarNode_def)
  have je: "TryGetValOfVar e (var2val ?M) (autojump ?M) = Inr e"
    and jc: "TryGetValOfVar cop (var2val ?M) (autojump ?M) = Inr cop"
    using nv by (simp_all add: TryGetValOfVar_def)
  have vop: "VisitDFPattern ?M (ExprPattern j opx) cop ?s0 = Inr (True, ?s1)"
    using se jc
    by (simp add: VisitDFPattern.simps[of ?M "ExprPattern j opx" cop ?s0]
        DFPatternFunctor_VisitDFPattern.simps[of ?M "ExprPattern j opx" cop ?s0])
  have gop: "get_op_node ?P = Some name" using o1 by (simp add: get_op_node_def)
  have inv0: "memo_inv ?s0" by (rule memo_inv_cleared)
  have jlt: "j < next_object s" and jn: "j \<notin> {}" using ids by (auto simp: pattern_ids_Call pid_in_ids pattern_ids.simps[of "ExprPattern j opx"])
  have e01: "extends {j} ?s0 ?s1"
    using extends_push[OF inv0 extends_refl[OF inv0, of "{}"], of j cop] jlt by simp
  have inv1: "memo_inv ?s1" using e01 by (rule extends_inv)
  have mz1: "memoize ?s1" using mz by (simp add: memo_push_def)
  have q: "\<forall>q\<in>set [pa, pb]. wf_pattern q \<and> pattern_ids q \<subseteq> {..<next_object ?s1}"
    using wf ids by (auto simp: wf_pattern_Call pattern_ids_Call memo_push_def)
  have len1: "length (matched_nodes ?s1) = 1" by (simp add: memo_push_def)
  have roll: "ClearMap 1 sf = memo_push j cop (s\<lparr>memo := Map.empty, matched_nodes := [], next_object := next_object sf\<rparr>)"
    if "visit_args_loop ?M [pa, pb] [ea, eb] ?s1 = Inr (b, sf)" for b sf
    using ClearMap_extends[OF inv1 visit_invariant(4)[OF inv1 mz1 q that]] len1
    by (simp add: memo_push_def)
  have disp: "DFPatternFunctor_VisitDFPattern ?M ?P e ?s0 =
      (case visit_args_loop ?M [pa, pb] [ea, eb] ?s1 of
         Inl err \<Rightarrow> Inl err
       | Inr (m1, sf) \<Rightarrow>
           if m1 then Inr (True, sf)
           else (case visit_args_loop ?M [pb, pa] [ea, eb] (ClearMap 1 sf) of
                   Inl err \<Rightarrow> Inl err
                 | Inr (m2, sg) \<Rightarrow> if m2 then Inr (True, sg) else Inr (False, ClearMap 1 sg)))"
    using je n vop gop nm
    by (simp add: DFPatternFunctor_VisitDFPattern.simps[of ?M ?P e ?s0] Let_def len1
        match_args.simps reverse_eq_rev split: sum.splits prod.splits)
  have top: "Match M ?P e aj s =
      (case DFPatternFunctor_VisitDFPattern ?M ?P e ?s0 of
         Inl err \<Rightarrow> Inl err
       | Inr (out, s1) \<Rightarrow>
           if out then Inr (True, memo_push i e s1) else Inr (False, ClearMap 0 s1))"
    using je by (simp add: Match_def VisitDFPattern.simps[of ?M ?P e ?s0] split: sum.splits)
  show ?thesis
  proof
    assume "\<exists>s'. Match M ?P e aj s = Inr (True, s')"
    then obtain s' where m: "Match M ?P e aj s = Inr (True, s')" ..
    then obtain sd where d: "DFPatternFunctor_VisitDFPattern ?M ?P e ?s0 = Inr (True, sd)"
      by (auto simp: top split: sum.splits if_splits)
    from d[unfolded disp] obtain m1 sf where
      l1: "visit_args_loop ?M [pa, pb] [ea, eb] ?s1 = Inr (m1, sf)"
      by (cases "visit_args_loop ?M [pa, pb] [ea, eb] ?s1") auto
    show "(\<exists>sf. visit_args_loop ?M [pa, pb] [ea, eb] ?s1 = Inr (True, sf))
     \<or> (\<exists>sf sg. visit_args_loop ?M [pa, pb] [ea, eb] ?s1 = Inr (False, sf)
           \<and> visit_args_loop ?M [pb, pa] [ea, eb]
               (memo_push j cop (s\<lparr>memo := Map.empty, matched_nodes := [], next_object := next_object sf\<rparr>))
               = Inr (True, sg))"
    proof (cases m1)
      case True
      with l1 show ?thesis by auto
    next
      case False
      with d[unfolded disp] l1 obtain sg where
        "visit_args_loop ?M [pb, pa] [ea, eb] (ClearMap 1 sf) = Inr (True, sg)"
        by (auto split: sum.splits if_splits)
      with l1 False roll[OF l1] show ?thesis by auto
    qed
  next
    assume "(\<exists>sf. visit_args_loop ?M [pa, pb] [ea, eb] ?s1 = Inr (True, sf))
     \<or> (\<exists>sf sg. visit_args_loop ?M [pa, pb] [ea, eb] ?s1 = Inr (False, sf)
           \<and> visit_args_loop ?M [pb, pa] [ea, eb]
               (memo_push j cop (s\<lparr>memo := Map.empty, matched_nodes := [], next_object := next_object sf\<rparr>))
               = Inr (True, sg))"
    then show "\<exists>s'. Match M ?P e aj s = Inr (True, s')"
    proof
      assume "\<exists>sf. visit_args_loop ?M [pa, pb] [ea, eb] ?s1 = Inr (True, sf)"
      then show ?thesis by (auto simp: top disp)
    next
      assume "\<exists>sf sg. visit_args_loop ?M [pa, pb] [ea, eb] ?s1 = Inr (False, sf)
           \<and> visit_args_loop ?M [pb, pa] [ea, eb]
               (memo_push j cop (s\<lparr>memo := Map.empty, matched_nodes := [], next_object := next_object sf\<rparr>))
               = Inr (True, sg)"
      then obtain sf sg where l1: "visit_args_loop ?M [pa, pb] [ea, eb] ?s1 = Inr (False, sf)"
        and l2: "visit_args_loop ?M [pb, pa] [ea, eb]
               (memo_push j cop (s\<lparr>memo := Map.empty, matched_nodes := [], next_object := next_object sf\<rparr>))
               = Inr (True, sg)" by blast
      from l2 roll[OF l1] have "visit_args_loop ?M [pb, pa] [ea, eb] (ClearMap 1 sf) = Inr (True, sg)"
        by simp
      with l1 show ?thesis by (simp add: top disp)
    qed
  qed
qed

text \<open>
  C5, amended: for add and multiply, the call pattern with operand patterns pa and pb
  matches the call op(ea, eb) exactly when the operand patterns match pairwise in some
  order, visited in sequence on the shared memo: pa matches ea and then pb matches eb
  with the bindings of pa in place; or pa does not match ea, or pb does not match eb after
  it, the bindings of that attempt are rolled back (the memo holds the operator pattern
  alone again), and pb matches ea and then pa matches eb. When the call pattern matches,
  every pattern in the memo is bound to exactly one expression.
\<close>

theorem C5_commutative_call:
  assumes n: "node e = CallNode cop [ea, eb] attrs"
    and o1: "node opx = OpNode name" and o2: "node cop = OpNode name"
    and nm: "name = ''add'' \<or> name = ''multiply''"
    and se: "structural_equal M opx cop"
    and mz: "memoize s"
    and wf: "wf_pattern (CallPattern i (ExprPattern j opx) (Some [pa, pb]))"
    and ids: "pattern_ids (CallPattern i (ExprPattern j opx) (Some [pa, pb])) \<subseteq> {..<next_object s}"
  shows "((\<exists>s'. Match M (CallPattern i (ExprPattern j opx) (Some [pa, pb])) e aj s = Inr (True, s'))
     \<longleftrightarrow>
       (\<exists>s1 s2. VisitDFPattern (M\<lparr>autojump := aj\<rparr>) pa ea
                   (memo_push j cop (s\<lparr>memo := Map.empty, matched_nodes := []\<rparr>)) = Inr (True, s1)
          \<and> VisitDFPattern (M\<lparr>autojump := aj\<rparr>) pb eb s1 = Inr (True, s2))
     \<or> (\<exists>sf t1 t2.
           (VisitDFPattern (M\<lparr>autojump := aj\<rparr>) pa ea
              (memo_push j cop (s\<lparr>memo := Map.empty, matched_nodes := []\<rparr>)) = Inr (False, sf)
            \<or> (\<exists>s1. VisitDFPattern (M\<lparr>autojump := aj\<rparr>) pa ea
                        (memo_push j cop (s\<lparr>memo := Map.empty, matched_nodes := []\<rparr>)) = Inr (True, s1)
                  \<and> VisitDFPattern (M\<lparr>autojump := aj\<rparr>) pb eb s1 = Inr (False, sf)))
         \<and> VisitDFPattern (M\<lparr>autojump := aj\<rparr>) pb ea
              (memo_push j cop (s\<lparr>memo := Map.empty, matched_nodes := [], next_object := next_object sf\<rparr>))
              = Inr (True, t1)
         \<and> VisitDFPattern (M\<lparr>autojump := aj\<rparr>) pa eb t1 = Inr (True, t2)))
    \<and> (\<forall>s'. Match M (CallPattern i (ExprPattern j opx) (Some [pa, pb])) e aj s = Inr (True, s')
          \<longrightarrow> (\<forall>k \<in> dom (memo s'). \<exists>x. memo s' k = Some [x]))"
proof -
  let ?s0 = "s\<lparr>memo := Map.empty, matched_nodes := []\<rparr>"
  have v: "visitable (CallPattern i (ExprPattern j opx) (Some [pa, pb])) ?s0"
    using mz wf ids by (simp add: visitable_def memo_inv_cleared)
  have single: "\<forall>k \<in> dom (memo s'). \<exists>x. memo s' k = Some [x]"
    if run: "Match M (CallPattern i (ExprPattern j opx) (Some [pa, pb])) e aj s = Inr (True, s')" for s'
  proof -
    from visit_invariant(1)[OF v run[unfolded Match_def]]
    have "memo_inv s'" by (simp add: extends_def)
    then show ?thesis using memo_inv_card by blast
  qed
  show ?thesis
    unfolding commutative_call_loop[OF n o1 o2 nm se mz wf ids] visit_args_loop_two
    using single by auto
qed

theorem C5_witness:
  "\<exists>s'. Match example_matcher example_commutative_pattern example_add_const_call False
     (DFPatternMatcher_state 4) = Inr (True, s')"
proof -
  have n: "node example_add_const_call
      = CallNode example_add_op [Expr 13 None None (VarNode ''a''), Expr 15 None None ConstantNode] None"
    by (simp add: example_add_const_call_def)
  have o: "node example_add_op = OpNode ''add''" by (simp add: example_add_op_def)
  have nm: "''add'' = ''add'' \<or> ''add'' = ''multiply''" by simp
  have se: "structural_equal example_matcher example_add_op example_add_op"
    by (simp add: example_matcher_def)
  have mz: "memoize (DFPatternMatcher_state 4)" by (simp add: DFPatternMatcher_state_def)
  have ids: "pattern_ids (CallPattern 3 (ExprPattern 0 example_add_op) (Some [ConstantPattern 1, VarPattern 2 []]))
      \<subseteq> {..<next_object (DFPatternMatcher_state 4)}"
    using example_commutative_wf(2)
    by (simp add: DFPatternMatcher_state_def example_commutative_pattern_def)
  have wf: "wf_pattern (CallPattern 3 (ExprPattern 0 example_add_op) (Some [ConstantPattern 1, VarPattern 2 []]))"
    using example_commutative_wf(1) by (simp add: example_commutative_pattern_def)
  have rev: "\<exists>sf t1 t2.
        (VisitDFPattern (example_matcher\<lparr>autojump := False\<rparr>) (ConstantPattern 1)
           (Expr 13 None None (VarNode ''a''))
           (memo_push 0 example_add_op ((DFPatternMatcher_state 4)\<lparr>memo := Map.empty, matched_nodes := []\<rparr>))
           = Inr (False, sf)
         \<or> (\<exists>s1. VisitDFPattern (example_matcher\<lparr>autojump := False\<rparr>) (ConstantPattern 1)
                    (Expr 13 None None (VarNode ''a''))
                    (memo_push 0 example_add_op ((DFPatternMatcher_state 4)\<lparr>memo := Map.empty, matched_nodes := []\<rparr>))
                    = Inr (True, s1)
               \<and> VisitDFPattern (example_matcher\<lparr>autojump := False\<rparr>) (VarPattern 2 [])
                    (Expr 15 None None ConstantNode) s1 = Inr (False, sf)))
      \<and> VisitDFPattern (example_matcher\<lparr>autojump := False\<rparr>) (VarPattern 2 [])
           (Expr 13 None None (VarNode ''a''))
           (memo_push 0 example_add_op
              ((DFPatternMatcher_state 4)\<lparr>memo := Map.empty, matched_nodes := [], next_object := next_object sf\<rparr>))
           = Inr (True, t1)
      \<and> VisitDFPattern (example_matcher\<lparr>autojump := False\<rparr>) (ConstantPattern 1)
           (Expr 15 None None ConstantNode) t1 = Inr (True, t2)"
    by (simp add: VisitDFPattern.simps DFPatternFunctor_VisitDFPattern.simps TryGetValOfVar_def
        example_matcher_def DFPatternMatcher_state_def memo_push_def ClearMap_def
        VisitDFPattern_ConstantPattern_def VisitDFPattern_VarPattern_def)
  show ?thesis
    unfolding example_commutative_pattern_def
    using iffD2[OF conjunct1[OF C5_commutative_call[OF n o o nm se mz wf ids, of False]], OF disjI2, OF rev] .
qed

end
